theory Spec2Isabelle
  imports Main "HOL-Library.Sublist"
begin

section \<open>Data model of the index export\<close>

text \<open>
  The export command of \<^verbatim>\<open>dc-cli\<close> (second document of
  \<^verbatim>\<open>src/commands/content-type-schema/get.ts\<close>: \<^verbatim>\<open>processIndexes\<close> and
  \<^verbatim>\<open>handler\<close>) lists the search indexes of a hub, fetches settings, content-type
  assignments, webhooks and replicas, and writes one JSON document.

  Values the code never inspects are kept as JSON.
\<close>

datatype json =
    JNull
  | JBool bool
  | JNum int
  | JStr string
  | JArr "json list"
  | JObj "(string \<times> json) list"

text \<open>
  A promise of the remote client rejects with a reason; the synchronous code of the
  handler throws a \<^verbatim>\<open>TypeError\<close> when it reads a member of \<^verbatim>\<open>undefined\<close>.
\<close>

datatype error = Rejected string | TypeError string

record hub =
  hub_id :: string
  hub_name :: string

text \<open>
  A listing entry. \<open>parentId = None\<close> stands for a missing (or \<^verbatim>\<open>null\<close>)
  member.
\<close>

record index_summary =
  index_id :: string
  index_name :: string
  parentId :: "string option"

text \<open>
  \<^verbatim>\<open>_links\<close> of an assignment: relation name and \<^verbatim>\<open>href\<close>, looked up with
  \<open>map_of\<close>. A relation that is not in the list is \<^verbatim>\<open>undefined\<close> in the source.
\<close>

record content_type_assignment =
  contentTypeUri :: string
  links :: "(string \<times> string) list"

text \<open>\<open>replicas = None\<close>: the settings have no \<^verbatim>\<open>replicas\<close> member.\<close>

record index_settings =
  replicas :: "string list option"
  other_settings :: json

record custom_payload =
  payload_type :: string
  payload_value :: json

record webhook =
  webhook_id :: string
  customPayload :: "custom_payload option"

text \<open>
  \<^verbatim>\<open>indexDetails\<close> of an entry is the listing entry itself, to which the handler may
  add the member \<^verbatim>\<open>assignedContentTypes\<close>; \<open>None\<close> is the member left out.
\<close>

record index_details = index_summary +
  assignedContentTypes :: "content_type_assignment list option"

record replica_settings_entry =
  replica_id :: string
  replica_name :: string
  replica_settings :: index_settings

text \<open>The webhook members are always written; \<open>None\<close> is \<^verbatim>\<open>null\<close>.\<close>

record index_entry =
  entry_id :: string
  indexDetails :: index_details
  settings :: index_settings
  replicasSettings :: "replica_settings_entry list"
  activeContentWebhook :: "json option"
  archivedContentWebhook :: "json option"

section \<open>Promises and the observable world\<close>

text \<open>
  A promise is modelled by the moment it settles and its outcome. The remote services
  are functions of their argument.
\<close>

type_synonym 'a promise = "nat \<times> (error + 'a)"

definition resolved :: "'a \<Rightarrow> 'a promise" where
  "resolved v = (0, Inr v)"

definition map_promise :: "('a \<Rightarrow> 'b) \<Rightarrow> 'a promise \<Rightarrow> 'b promise" where
  "map_promise f p = (fst p, case snd p of Inl e \<Rightarrow> Inl e | Inr v \<Rightarrow> Inr (f v))"

fun rejections :: "'a promise list \<Rightarrow> (nat \<times> error) list" where
  "rejections [] = []"
| "rejections ((t, Inl e) # ps) = (t, e) # rejections ps"
| "rejections ((t, Inr v) # ps) = rejections ps"

fun fulfilments :: "'a promise list \<Rightarrow> 'a list" where
  "fulfilments [] = []"
| "fulfilments ((t, Inl e) # ps) = fulfilments ps"
| "fulfilments ((t, Inr v) # ps) = v # fulfilments ps"

fun earliest :: "nat \<times> error \<Rightarrow> (nat \<times> error) list \<Rightarrow> nat \<times> error" where
  "earliest r [] = r"
| "earliest r (q # qs) = earliest (if fst q < fst r then q else r) qs"

text \<open>
  \<^verbatim>\<open>Promise.all\<close>: the values in the order of the promises when all fulfil, and
  otherwise the reason of the rejection that settles first (the leftmost of those that
  settle at the same moment).
\<close>

definition Promise_all :: "'a promise list \<Rightarrow> error + 'a list" where
  "Promise_all ps =
     (case rejections ps of
        [] \<Rightarrow> Inr (fulfilments ps)
      | r # rs \<Rightarrow> Inl (snd (earliest r rs)))"

datatype fetch_kind =
    IndexSettings
  | AssignedContentTypes
  | ActiveWebhook
  | ArchivedWebhook
  | IndexByName
  | ReplicaSettings

text \<open>
  One request of a batch as an observer of the network sees it: the call site, the
  position in the listing of the index it is issued for, the argument, the moment it
  settles and the rejection reason if it rejects.
\<close>

record fetch =
  kind :: fetch_kind
  owner :: nat
  request :: string
  settled :: nat
  rejection :: "error option"

definition fetch_of :: "fetch_kind \<Rightarrow> nat \<Rightarrow> string \<Rightarrow> 'a promise \<Rightarrow> fetch" where
  "fetch_of k i a p =
     \<lparr>kind = k, owner = i, request = a, settled = fst p,
      rejection = (case snd p of Inl e \<Rightarrow> Some e | Inr v \<Rightarrow> None)\<rparr>"

text \<open>
  The world: the files on disk (path to the document written there), what
  \<^verbatim>\<open>process.stdout.write\<close> printed, and the batches of requests handed to
  \<^verbatim>\<open>Promise.all\<close>, oldest first. The requests of one batch are in flight together;
  the handler awaits a batch before it goes on, so a batch has settled (or the run has
  ended) before the next one is issued. The progress lines of \<^verbatim>\<open>console.log\<close> carry
  nothing into the result and are left out.
\<close>

record world =
  files :: "string \<rightharpoonup> index_entry list"
  stdout :: "string list"
  fetches :: "fetch list list"

type_synonym 'a io = "world \<Rightarrow> (error + 'a) \<times> world"

definition return_io :: "'a \<Rightarrow> 'a io" where
  "return_io v w = (Inr v, w)"

definition lift_io :: "error + 'a \<Rightarrow> 'a io" where
  "lift_io r w = (r, w)"

definition bind_io :: "'a io \<Rightarrow> ('a \<Rightarrow> 'b io) \<Rightarrow> 'b io" where
  "bind_io m f w =
     (case m w of
        (Inl e, w') \<Rightarrow> (Inl e, w')
      | (Inr v, w') \<Rightarrow> f v w')"

definition await :: "'a promise \<Rightarrow> 'a io" where
  "await p w = (snd p, w)"

definition await_all :: "fetch list \<Rightarrow> 'a promise list \<Rightarrow> 'a list io" where
  "await_all fs ps w = (Promise_all ps, w\<lparr>fetches := fetches w @ [fs]\<rparr>)"

text \<open>\<^verbatim>\<open>await Promise.all(reqs.map(a => get(a)))\<close>, each request tagged with its index.\<close>

definition fetch_each :: "fetch_kind \<Rightarrow> (string \<Rightarrow> 'a promise) \<Rightarrow> (nat \<times> string) list \<Rightarrow> 'a list io" where
  "fetch_each k get reqs =
     await_all (map (\<lambda>(i, a). fetch_of k i a (get a)) reqs) (map (\<lambda>(i, a). get a) reqs)"

section \<open>External collaborators\<close>

text \<open>
  The remote directory client (\<^verbatim>\<open>client.hubs.get\<close>, the \<^verbatim>\<open>FetchClientService\<close>), the
  webhook lookup of the hub (\<^verbatim>\<open>hub.related.webhooks.get\<close>) and the user's answer to the
  overwrite prompt for a path.
\<close>

record services =
  hubs_get :: "string \<Rightarrow> hub promise"
  fetchClient_init :: "unit promise"
  getIdexesDetailsList :: "index_summary list promise"
  getIndexSettings :: "string \<Rightarrow> index_settings promise"
  getIndexAssignedContentTypes :: "string \<Rightarrow> content_type_assignment list promise"
  getIndexByName :: "string \<Rightarrow> index_summary promise"
  webhooks_get :: "string \<Rightarrow> webhook promise"
  confirm_overwrite :: "string \<Rightarrow> bool"

record arguments =
  hubId :: string
  dir :: string

text \<open>
  Node's \<^verbatim>\<open>path\<close> module on POSIX: \<^verbatim>\<open>path.sep\<close> and \<^verbatim>\<open>path.basename(path, ext)\<close>.
  \<^verbatim>\<open>basename\<close> follows the two loops of Node's \<^verbatim>\<open>posix.basename\<close> one to one. Each loop
  runs from the last character down; \<open>basename_ext_scan p ext (Suc i) s\<close> is the iteration at
  index \<open>i\<close>, and leaving the recursion is the \<^verbatim>\<open>break\<close>. The variables of the loop are the
  fields of \<open>scan\<close> (\<open>- 1\<close> is Node's "not yet"). \<^verbatim>\<open>path.slice(start, end)\<close> is called with
  \<open>end \<ge> 0\<close> only.
\<close>

definition path_sep :: string where
  "path_sep = ''/''"

record scan =
  scan_start :: nat
  scan_end :: int
  matchedSlash :: bool
  extIdx :: int
  firstNonSlashEnd :: int

fun basename_ext_scan :: "string \<Rightarrow> string \<Rightarrow> nat \<Rightarrow> scan \<Rightarrow> scan" where
  "basename_ext_scan path ext 0 s = s"
| "basename_ext_scan path ext (Suc i) s =
     (if [path ! i] = path_sep then
        (if \<not> matchedSlash s then s\<lparr>scan_start := i + 1\<rparr>
         else basename_ext_scan path ext i s)
      else
        (let s1 = (if firstNonSlashEnd s = - 1
                   then s\<lparr>matchedSlash := False, firstNonSlashEnd := int i + 1\<rparr> else s);
             s2 = (if extIdx s1 \<ge> 0 then
                     (if path ! i = ext ! nat (extIdx s1) then
                        (if extIdx s1 - 1 = - 1
                         then s1\<lparr>extIdx := - 1, scan_end := int i\<rparr>
                         else s1\<lparr>extIdx := extIdx s1 - 1\<rparr>)
                      else s1\<lparr>extIdx := - 1, scan_end := firstNonSlashEnd s1\<rparr>)
                   else s1)
         in basename_ext_scan path ext i s2))"

fun basename_scan :: "string \<Rightarrow> nat \<Rightarrow> scan \<Rightarrow> scan" where
  "basename_scan path 0 s = s"
| "basename_scan path (Suc i) s =
     (if [path ! i] = path_sep then
        (if \<not> matchedSlash s then s\<lparr>scan_start := i + 1\<rparr>
         else basename_scan path i s)
      else if scan_end s = - 1
      then basename_scan path i (s\<lparr>matchedSlash := False, scan_end := int i + 1\<rparr>)
      else basename_scan path i s)"

definition slice :: "string \<Rightarrow> nat \<Rightarrow> int \<Rightarrow> string" where
  "slice path a b = take (nat b - a) (drop a path)"

definition basename :: "string \<Rightarrow> string \<Rightarrow> string" where
  "basename path ext =
     (if length ext > 0 \<and> length ext \<le> length path then
        (if ext = path then []
         else
           (let s = basename_ext_scan path ext (length path)
                      \<lparr>scan_start = 0, scan_end = - 1, matchedSlash = True,
                       extIdx = int (length ext) - 1, firstNonSlashEnd = - 1\<rparr>;
                e = (if int (scan_start s) = scan_end s then firstNonSlashEnd s
                     else if scan_end s = - 1 then int (length path)
                     else scan_end s)
            in slice path (scan_start s) e))
      else
        (let s = basename_scan path (length path)
                   \<lparr>scan_start = 0, scan_end = - 1, matchedSlash = True,
                    extIdx = - 1, firstNonSlashEnd = - 1\<rparr>
         in if scan_end s = - 1 then [] else slice path (scan_start s) (scan_end s)))"

text \<open>
  Modelled from the spec: \<^verbatim>\<open>promptToExportSettings\<close> of the export service, whose
  code is not in the sources. The spec (ExportGate): given a candidate output path,
  report whether a file exists there; if so, request interactive confirmation to
  overwrite; the result is the decision to proceed.
\<close>

definition promptToExportSettings :: "services \<Rightarrow> string \<Rightarrow> world \<Rightarrow> bool" where
  "promptToExportSettings svc filename w =
     (case files w filename of
        None \<Rightarrow> True
      | Some doc \<Rightarrow> confirm_overwrite svc filename)"

text \<open>How a run that does not reject ends.\<close>

datatype outcome = Exported | NothingExported

text \<open>
  Modelled from the spec: \<^verbatim>\<open>nothingExportedExit\<close> of the export service, whose code is
  not in the sources. The spec: a declined overwrite is not an error, it is a clean early
  termination with a distinct "nothing exported" outcome, an explicit notice and a
  zero-error exit status.
\<close>

definition nothingExportedExit :: "outcome io" where
  "nothingExportedExit w = (Inr NothingExported, w\<lparr>stdout := stdout w @ [''nothing exported'']\<rparr>)"

text \<open>
  Modelled from the spec: the exit behaviour of a run. The spec: success with the file
  written; success with no file written and a "nothing exported" notice; failure with
  non-zero status and no file written.
\<close>

definition exit_status :: "error + outcome \<Rightarrow> nat" where
  "exit_status r = (case r of Inl e \<Rightarrow> 1 | Inr v \<Rightarrow> 0)"

text \<open>
  Modelled from the spec: \<^verbatim>\<open>writeJsonToFile\<close> of the export service, whose code is not
  in the sources. The spec (ExportWriter): serialise the sequence as one JSON document
  and write it at the path, replacing any existing file.
\<close>

definition writeJsonToFile :: "string \<Rightarrow> index_entry list \<Rightarrow> world \<Rightarrow> world" where
  "writeJsonToFile filename doc w = w\<lparr>files := (files w)(filename \<mapsto> doc)\<rparr>"

section \<open>processIndexes\<close>

text \<open>
  \<^verbatim>\<open>outputDir.substr(-1) === path.sep\<close> compares the last character (the empty string
  for an empty \<open>outputDir\<close>); \<^verbatim>\<open>dir.slice(0, -1)\<close> drops it.
\<close>

definition uniqueFilename :: "string \<Rightarrow> hub \<Rightarrow> string" where
  "uniqueFilename outputDir hubToExport =
     (let dir = (if outputDir \<noteq> [] \<and> [last outputDir] = path_sep then butlast outputDir else outputDir);
          file = basename (''indexes-'' @ hub_id hubToExport @ ''-'' @ hub_name hubToExport) ''.json''
      in dir @ path_sep @ file @ ''.json'')"

definition processIndexes :: "services \<Rightarrow> string \<Rightarrow> hub \<Rightarrow> index_entry list \<Rightarrow> outcome io" where
  "processIndexes svc outputDir hubToExport indexes w =
     (if \<not> promptToExportSettings svc (uniqueFilename outputDir hubToExport) w
      then nothingExportedExit w
      else (Inr Exported,
            (writeJsonToFile (uniqueFilename outputDir hubToExport) indexes w)
              \<lparr>stdout := stdout w @ [''Indexes exported successfully! \<newline>'']\<rparr>))"

section \<open>handler\<close>

text \<open>JavaScript truthiness of an optional string: missing and empty are falsy.\<close>

definition truthy :: "string option \<Rightarrow> bool" where
  "truthy s = (case s of None \<Rightarrow> False | Some a \<Rightarrow> a \<noteq> [])"

text \<open>\<^verbatim>\<open>href.split('/').slice(-1)[0]\<close>: what follows the last slash.\<close>

definition last_segment :: "string \<Rightarrow> string" where
  "last_segment href = rev (takeWhile (\<lambda>c. c \<noteq> CHR ''/'') (rev href))"

definition webhookRef :: "string \<Rightarrow> content_type_assignment \<Rightarrow> error + string" where
  "webhookRef rel type =
     (case map_of (links type) rel of
        None \<Rightarrow> Inl (TypeError ''Cannot read property href of undefined'')
      | Some href \<Rightarrow> Inr (last_segment href))"

text \<open>
  The body of the \<^verbatim>\<open>forEach\<close> over \<^verbatim>\<open>assignedContentTypesList\<close>: the two webhook
  references of one index, from \<^verbatim>\<open>types[0]\<close>, or two \<^verbatim>\<open>null\<close>s.
\<close>

definition contentWebhooks :: "content_type_assignment list \<Rightarrow> error + (string option \<times> string option)" where
  "contentWebhooks types =
     (case types of
        [] \<Rightarrow> Inr (None, None)
      | type # later \<Rightarrow>
          (case webhookRef ''active-content-webhook'' type of
             Inl e \<Rightarrow> Inl e
           | Inr a \<Rightarrow>
               (case webhookRef ''archived-content-webhook'' type of
                  Inl e \<Rightarrow> Inl e
                | Inr b \<Rightarrow> Inr (Some a, Some b))))"

text \<open>A synchronous loop stops at the first element that throws.\<close>

fun sequence :: "(error + 'a) list \<Rightarrow> error + 'a list" where
  "sequence [] = Inr []"
| "sequence (Inl e # rs) = Inl e"
| "sequence (Inr v # rs) = (case sequence rs of Inl e \<Rightarrow> Inl e | Inr vs \<Rightarrow> Inr (v # vs))"

definition settingsList :: "services \<Rightarrow> index_summary list \<Rightarrow> index_settings list io" where
  "settingsList svc indexesListDetails =
     fetch_each IndexSettings (getIndexSettings svc)
       (zip [0..<length indexesListDetails] (map index_id indexesListDetails))"

definition assignedContentTypesList :: "services \<Rightarrow> index_summary list \<Rightarrow> content_type_assignment list list io" where
  "assignedContentTypesList svc indexesListDetails =
     fetch_each AssignedContentTypes (getIndexAssignedContentTypes svc)
       (zip [0..<length indexesListDetails] (map index_id indexesListDetails))"

text \<open>
  \<^verbatim>\<open>Promise.all(refs.map(item => (item ? hub.related.webhooks.get(item) : null)))\<close>:
  a request for every truthy reference, \<^verbatim>\<open>null\<close> passed through for the others.
\<close>

definition webhook_fetches :: "fetch_kind \<Rightarrow> services \<Rightarrow> (nat \<times> string option) list \<Rightarrow> fetch list" where
  "webhook_fetches k svc irefs =
     concat (map (\<lambda>(i, item).
       case item of
         None \<Rightarrow> []
       | Some a \<Rightarrow> if a \<noteq> [] then [fetch_of k i a (webhooks_get svc a)] else []) irefs)"

definition webhook_promise :: "services \<Rightarrow> string option \<Rightarrow> webhook option promise" where
  "webhook_promise svc item =
     (case item of
        None \<Rightarrow> resolved None
      | Some a \<Rightarrow> if a \<noteq> [] then map_promise Some (webhooks_get svc a) else resolved None)"

definition contentWebhooksList :: "fetch_kind \<Rightarrow> services \<Rightarrow> string option list \<Rightarrow> webhook option list io" where
  "contentWebhooksList k svc refs =
     await_all (webhook_fetches k svc (zip [0..<length refs] refs)) (map (webhook_promise svc) refs)"

text \<open>\<^verbatim>\<open>x && x.customPayload.value\<close>\<close>

definition contentWebhooksPayload :: "webhook option \<Rightarrow> error + json option" where
  "contentWebhooksPayload x =
     (case x of
        None \<Rightarrow> Inr None
      | Some h \<Rightarrow>
          (case customPayload h of
             None \<Rightarrow> Inl (TypeError ''Cannot read property value of undefined'')
           | Some p \<Rightarrow> Inr (Some (payload_value p))))"

text \<open>\<^verbatim>\<open>settings.replicas || []\<close>\<close>

definition replicas_of :: "index_settings \<Rightarrow> string list" where
  "replicas_of s = (case replicas s of None \<Rightarrow> [] | Some names \<Rightarrow> names)"

text \<open>
  The two \<^verbatim>\<open>for\<close> loops over the replicas, from index \<open>i\<close> on: one awaited batch for
  an index with replicas, none for an index without.
\<close>

fun replicaIndexesList :: "services \<Rightarrow> nat \<Rightarrow> string list list \<Rightarrow> index_summary list list io" where
  "replicaIndexesList svc i [] = return_io []"
| "replicaIndexesList svc i (names # rest) =
     bind_io (if length names > 0
              then fetch_each IndexByName (getIndexByName svc) (map (Pair i) names)
              else return_io [])
       (\<lambda>replicasDetailsList.
          bind_io (replicaIndexesList svc (Suc i) rest)
            (\<lambda>more. return_io (replicasDetailsList # more)))"

fun replicaIndexSettingsList :: "services \<Rightarrow> nat \<Rightarrow> index_summary list list \<Rightarrow> index_settings list list io" where
  "replicaIndexSettingsList svc i [] = return_io []"
| "replicaIndexSettingsList svc i (details # rest) =
     bind_io (if length details > 0
              then fetch_each ReplicaSettings (getIndexSettings svc) (map (Pair i) (map index_id details))
              else return_io [])
       (\<lambda>replicasSettingsList.
          bind_io (replicaIndexSettingsList svc (Suc i) rest)
            (\<lambda>more. return_io (replicasSettingsList # more)))"

text \<open>The entry built for the index at position \<open>i\<close> of the listing.\<close>

definition indexEntry ::
  "index_summary list \<Rightarrow> index_settings list \<Rightarrow> content_type_assignment list list \<Rightarrow>
   json option list \<Rightarrow> json option list \<Rightarrow> string list list \<Rightarrow> index_summary list list \<Rightarrow>
   index_settings list list \<Rightarrow> nat \<Rightarrow> index_entry" where
  "indexEntry indexesListDetails settingsL assignedL activePayload archivedPayload replicasL
      replicaIndexesL replicaIndexSettingsL i =
     \<lparr>entry_id = index_id (indexesListDetails ! i),
      indexDetails = index_summary.extend (indexesListDetails ! i)
        \<lparr>assignedContentTypes =
           (if length (assignedL ! i) > 0 then Some (assignedL ! i) else None)\<rparr>,
      settings = settingsL ! i,
      replicasSettings =
        map (\<lambda>j. \<lparr>replica_id = index_id (replicaIndexesL ! i ! j),
                  replica_name = replicasL ! i ! j,
                  replica_settings = replicaIndexSettingsL ! i ! j\<rparr>)
          [0..<length (replicaIndexSettingsL ! i)],
      activeContentWebhook = activePayload ! i,
      archivedContentWebhook = archivedPayload ! i\<rparr>"

text \<open>
  The handler from the listing to \<^verbatim>\<open>finalIndexesListDetails\<close>. An entry is pushed
  for the positions with a falsy \<^verbatim>\<open>parentId\<close>.
\<close>

definition finalIndexesListDetails :: "services \<Rightarrow> index_summary list \<Rightarrow> index_entry list io" where
  "finalIndexesListDetails svc indexesListDetails =
     (if length indexesListDetails > 0 then
        bind_io (settingsList svc indexesListDetails) (\<lambda>settingsL.
        bind_io (assignedContentTypesList svc indexesListDetails) (\<lambda>assignedL.
        bind_io (lift_io (sequence (map contentWebhooks assignedL))) (\<lambda>refs.
        bind_io (contentWebhooksList ActiveWebhook svc (map fst refs)) (\<lambda>activeL.
        bind_io (contentWebhooksList ArchivedWebhook svc (map snd refs)) (\<lambda>archivedL.
        bind_io (lift_io (sequence (map contentWebhooksPayload activeL))) (\<lambda>activePayload.
        bind_io (lift_io (sequence (map contentWebhooksPayload archivedL))) (\<lambda>archivedPayload.
        bind_io (replicaIndexesList svc 0 (map replicas_of settingsL)) (\<lambda>replicaIndexesL.
        bind_io (replicaIndexSettingsList svc 0 replicaIndexesL) (\<lambda>replicaIndexSettingsL.
        return_io
          (map (indexEntry indexesListDetails settingsL assignedL activePayload archivedPayload
                  (map replicas_of settingsL) replicaIndexesL replicaIndexSettingsL)
             (filter (\<lambda>i. \<not> truthy (parentId (indexesListDetails ! i)))
                [0..<length indexesListDetails])))))))))))
      else return_io [])"

definition handler :: "services \<Rightarrow> arguments \<Rightarrow> outcome io" where
  "handler svc argv =
     bind_io (await (hubs_get svc (hubId argv))) (\<lambda>hub.
     bind_io (await (fetchClient_init svc)) (\<lambda>u.
     bind_io (await (getIdexesDetailsList svc)) (\<lambda>indexesListDetails.
     bind_io (finalIndexesListDetails svc indexesListDetails) (\<lambda>final.
     processIndexes svc (dir argv) hub final))))"

section \<open>Vocabulary of the properties\<close>


text \<open>
  The batches a run adds to the log, their call sites, and the rejection a batch
  reports: \<open>first_rejection\<close> reads the log the way \<open>Promise_all\<close> reads the promises.
\<close>

definition issued :: "world \<Rightarrow> world \<Rightarrow> fetch list list" where
  "issued w w' = drop (length (fetches w)) (fetches w')"

definition call_sites :: "fetch list list \<Rightarrow> (fetch_kind \<times> nat) list list" where
  "call_sites bs = map (map (\<lambda>f. (kind f, owner f))) bs"

definition replica_related :: "fetch \<Rightarrow> bool" where
  "replica_related f = (kind f = IndexByName \<or> kind f = ReplicaSettings)"

definition no_rejection :: "fetch list \<Rightarrow> bool" where
  "no_rejection b = (\<forall>f\<in>set b. rejection f = None)"

definition batch_rejections :: "fetch list \<Rightarrow> (nat \<times> error) list" where
  "batch_rejections b =
     concat (map (\<lambda>f. case rejection f of None \<Rightarrow> [] | Some e \<Rightarrow> [(settled f, e)]) b)"

definition first_rejection :: "fetch list \<Rightarrow> error option" where
  "first_rejection b =
     (case batch_rejections b of [] \<Rightarrow> None | r # rs \<Rightarrow> Some (snd (earliest r rs)))"

text \<open>
  A summary of an action in the style of a Hoare triple: \<open>yields m Q\<close> says that from
  every world \<open>m\<close> only appends batches \<open>bs\<close> to the log, and that its result and those
  batches satisfy \<open>Q\<close>.

  \<open>rank\<close> numbers the call sites of the handler in program order; the two replica loops
  have one rank for each index. \<open>stage n G lo hi r bs\<close> collects what every part of the
  handler guarantees about its batches: at most the last batch contains a rejection, and
  then the result is the first rejection of that batch (\<open>fail_fast\<close>); the batches are
  issued in increasing rank, each batch of one rank, within \<open>lo\<close> and \<open>hi\<close>; every
  request satisfies \<open>G\<close>. \<open>replicas_declared\<close> is the \<open>G\<close> of the handler: a replica
  request belongs to an index of the listing whose fetched settings declare a replica.
\<close>

definition rank :: "nat \<Rightarrow> fetch \<Rightarrow> nat" where
  "rank n f =
     (case kind f of
        IndexSettings \<Rightarrow> 0
      | AssignedContentTypes \<Rightarrow> 1
      | ActiveWebhook \<Rightarrow> 2
      | ArchivedWebhook \<Rightarrow> 3
      | IndexByName \<Rightarrow> 4 + owner f
      | ReplicaSettings \<Rightarrow> 4 + n + owner f)"

definition fail_fast :: "error + 'a \<Rightarrow> fetch list list \<Rightarrow> bool" where
  "fail_fast r bs =
     ((\<forall>b\<in>set bs. no_rejection b)
      \<or> (bs \<noteq> [] \<and> (\<forall>b\<in>set (butlast bs). no_rejection b)
          \<and> (\<exists>e. r = Inl e \<and> first_rejection (last bs) = Some e)))"

definition stage :: "nat \<Rightarrow> (fetch \<Rightarrow> bool) \<Rightarrow> nat \<Rightarrow> nat \<Rightarrow> error + 'a \<Rightarrow> fetch list list \<Rightarrow> bool" where
  "stage n G lo hi r bs =
     (fail_fast r bs
      \<and> sorted_wrt (\<lambda>b c. \<forall>f\<in>set b. \<forall>g\<in>set c. rank n f < rank n g) bs
      \<and> (\<forall>b\<in>set bs. \<forall>f\<in>set b. lo \<le> rank n f \<and> rank n f < hi \<and> G f
            \<and> (\<forall>g\<in>set b. rank n g = rank n f)))"

definition yields :: "'a io \<Rightarrow> (error + 'a \<Rightarrow> fetch list list \<Rightarrow> bool) \<Rightarrow> bool" where
  "yields m Q = (\<forall>w. \<exists>bs. snd (m w) = w\<lparr>fetches := fetches w @ bs\<rparr> \<and> Q (fst (m w)) bs)"

definition replicas_declared :: "services \<Rightarrow> index_summary list \<Rightarrow> fetch \<Rightarrow> bool" where
  "replicas_declared svc ixs f =
     (replica_related f \<longrightarrow>
        owner f < length ixs
        \<and> (\<exists>s. snd (getIndexSettings svc (index_id (ixs ! owner f))) = Inr s \<and> replicas_of s \<noteq> []))"



section \<open>Scenarios\<close>

text \<open>
  The scenario of the spec: hub \<^verbatim>\<open>h1\<close> named \<^verbatim>\<open>Acme\<close>, the index \<^verbatim>\<open>i1\<close> with its
  replica \<^verbatim>\<open>i2\<close>, one assignment for \<^verbatim>\<open>i1\<close> with both webhook links.
\<close>

definition acme :: hub where
  "acme = \<lparr>hub_id = ''h1'', hub_name = ''Acme''\<rparr>"

definition world0 :: world where
  "world0 = \<lparr>files = Map.empty, stdout = [], fetches = []\<rparr>"

definition world1 :: world where
  "world1 = \<lparr>files = [''out/indexes-h1-Acme.json'' \<mapsto> []], stdout = [], fetches = []\<rparr>"

definition acme_indexes :: "index_summary list" where
  "acme_indexes =
     [\<lparr>index_id = ''i1'', index_name = ''Main'', parentId = None\<rparr>,
      \<lparr>index_id = ''i2'', index_name = ''MainReplica'', parentId = Some ''i1''\<rparr>]"

definition acme_assignment :: content_type_assignment where
  "acme_assignment =
     \<lparr>contentTypeUri = ''http://acme/main.json'',
      links = [(''active-content-webhook'', ''https://api/hubs/h1/webhooks/w1''),
               (''archived-content-webhook'', ''https://api/hubs/h1/webhooks/w2'')]\<rparr>"

definition acme_settings :: "string \<Rightarrow> index_settings promise" where
  "acme_settings a =
     (if a = ''i1'' then (3, Inr \<lparr>replicas = Some [''MainReplica''], other_settings = JNull\<rparr>)
      else if a = ''i2'' then (1, Inr \<lparr>replicas = None, other_settings = JStr ''replica''\<rparr>)
      else (2, Inl (Rejected ''no such index'')))"

definition acme_services :: services where
  "acme_services =
     \<lparr>hubs_get = (\<lambda>a. (1, Inr acme)),
      fetchClient_init = (1, Inr ()),
      getIdexesDetailsList = (1, Inr acme_indexes),
      getIndexSettings = acme_settings,
      getIndexAssignedContentTypes = (\<lambda>a. if a = ''i1'' then (2, Inr [acme_assignment]) else (1, Inr [])),
      getIndexByName = (\<lambda>a. if a = ''MainReplica'' then (1, Inr (acme_indexes ! 1))
                            else (1, Inl (Rejected ''no such name''))),
      webhooks_get = (\<lambda>a. (1, Inr \<lparr>webhook_id = a,
                          customPayload = Some \<lparr>payload_type = ''json'', payload_value = JStr a\<rparr>\<rparr>)),
      confirm_overwrite = (\<lambda>a. False)\<rparr>"

text \<open>
  Further inputs: an index that is not a replica and has neither replicas nor assignments,
  the same index with an empty \<^verbatim>\<open>parentId\<close>, a second assignment, an assignment without
  the archived link, two rejecting assignment fetches, and three indexes of which two have
  a replica.
\<close>

definition acme_argv :: arguments where
  "acme_argv = \<lparr>hubId = ''h1'', dir = ''out''\<rparr>"

definition acme_entry :: index_entry where
  "acme_entry =
     \<lparr>entry_id = ''i1'',
      indexDetails = \<lparr>index_id = ''i1'', index_name = ''Main'', parentId = None,
                      assignedContentTypes = Some [acme_assignment]\<rparr>,
      settings = \<lparr>replicas = Some [''MainReplica''], other_settings = JNull\<rparr>,
      replicasSettings =
        [\<lparr>replica_id = ''i2'', replica_name = ''MainReplica'',
          replica_settings = \<lparr>replicas = None, other_settings = JStr ''replica''\<rparr>\<rparr>],
      activeContentWebhook = Some (JStr ''w1''),
      archivedContentWebhook = Some (JStr ''w2'')\<rparr>"



definition blank_parent_index :: index_summary where
  "blank_parent_index = \<lparr>index_id = ''i2'', index_name = ''MainReplica'', parentId = Some ''''\<rparr>"

definition blank_parent_entry :: index_entry where
  "blank_parent_entry =
     \<lparr>entry_id = ''i2'',
      indexDetails = \<lparr>index_id = ''i2'', index_name = ''MainReplica'', parentId = Some '''',
                      assignedContentTypes = None\<rparr>,
      settings = \<lparr>replicas = None, other_settings = JStr ''replica''\<rparr>,
      replicasSettings = [],
      activeContentWebhook = None,
      archivedContentWebhook = None\<rparr>"





definition rejecting_services :: services where
  "rejecting_services =
     acme_services\<lparr>getIndexAssignedContentTypes :=
       (\<lambda>a. if a = ''i1'' then (5, Inl (Rejected ''late'')) else (2, Inl (Rejected ''early'')))\<rparr>"

definition trio_indexes :: "index_summary list" where
  "trio_indexes =
     [\<lparr>index_id = ''a'', index_name = ''A'', parentId = None\<rparr>,
      \<lparr>index_id = ''b'', index_name = ''B'', parentId = None\<rparr>,
      \<lparr>index_id = ''c'', index_name = ''C'', parentId = None\<rparr>]"

definition trio_services :: services where
  "trio_services =
     \<lparr>hubs_get = (\<lambda>a. (1, Inr acme)),
      fetchClient_init = (1, Inr ()),
      getIdexesDetailsList = (1, Inr trio_indexes),
      getIndexSettings =
        (\<lambda>a. if a = ''a'' then (1, Inr \<lparr>replicas = Some [''ra''], other_settings = JNull\<rparr>)
             else if a = ''b'' then (1, Inr \<lparr>replicas = Some [''rb''], other_settings = JNull\<rparr>)
             else (1, Inr \<lparr>replicas = None, other_settings = JNull\<rparr>)),
      getIndexAssignedContentTypes = (\<lambda>a. (1, Inr [])),
      getIndexByName = (\<lambda>a. (1, Inr \<lparr>index_id = a @ ''-id'', index_name = a, parentId = Some ''p''\<rparr>)),
      webhooks_get = (\<lambda>a. (1, Inl (Rejected ''no webhook''))),
      confirm_overwrite = (\<lambda>a. True)\<rparr>"







section \<open>The output path and the overwrite gate\<close>

lemma scan_settled:
  "\<forall>j<i. p ! j \<noteq> CHR ''/'' \<Longrightarrow> extIdx s = - 1 \<Longrightarrow> firstNonSlashEnd s \<noteq> - 1 \<Longrightarrow>
   basename_ext_scan p ext i s = s"
  by (induction i) (simp_all add: path_sep_def)

lemma scan_matching:
  assumes "\<forall>j<length p. p ! j \<noteq> CHR ''/''" and "\<not> suffix ext p"
  shows "i \<le> length p \<Longrightarrow> 0 \<le> extIdx s \<Longrightarrow> extIdx s < int i \<Longrightarrow> extIdx s < int (length ext) \<Longrightarrow>
    drop i p = drop (Suc (nat (extIdx s))) ext \<Longrightarrow>
    firstNonSlashEnd s = int (length p) \<or> (i = length p \<and> firstNonSlashEnd s = - 1) \<Longrightarrow>
    scan_start s = 0 \<Longrightarrow>
    scan_start (basename_ext_scan p ext i s) = 0
    \<and> scan_end (basename_ext_scan p ext i s) = int (length p)"
proof (induction i arbitrary: s)
  case 0
  then show ?case by simp
next
  case (Suc i)
  let ?k = "extIdx s"
  let ?s1 = "if firstNonSlashEnd s = - 1
                   then s\<lparr>matchedSlash := False, firstNonSlashEnd := int i + 1\<rparr> else s"
  have i: "i < length p" using Suc.prems(1) by simp
  have nosep: "[p ! i] \<noteq> path_sep" using assms(1) i by (simp add: path_sep_def)
  have f1: "firstNonSlashEnd ?s1 = int (length p)" using Suc.prems(6) by auto
  have k1: "extIdx ?s1 = ?k" and st1: "scan_start ?s1 = 0" using Suc.prems(7) by auto
  have kn: "nat ?k < length ext" using Suc.prems(2,4) by simp
  have pi: "drop i p = p ! i # drop (Suc i) p" using i by (simp add: Cons_nth_drop_Suc)
  have ek: "drop (nat ?k) ext = ext ! nat ?k # drop (Suc (nat ?k)) ext"
    using kn by (simp add: Cons_nth_drop_Suc)
  show ?case
  proof (cases "p ! i = ext ! nat ?k")
    case True
    have m: "drop i p = drop (nat ?k) ext"
      using pi ek True Suc.prems(5) by simp
    show ?thesis
    proof (cases "?k = 0")
      case True
      with m have "drop i p = ext" by simp
      then have "p = take i p @ ext" by (metis append_take_drop_id)
      then have "suffix ext p" by (rule suffixI)
      with assms(2) show ?thesis by simp
    next
      case False
      let ?s2 = "?s1\<lparr>extIdx := ?k - 1\<rparr>"
      have step: "basename_ext_scan p ext (Suc i) s = basename_ext_scan p ext i ?s2"
        using nosep True False Suc.prems(2) by (simp add: Let_def)
      have "scan_start (basename_ext_scan p ext i ?s2) = 0
        \<and> scan_end (basename_ext_scan p ext i ?s2) = int (length p)"
      proof (rule Suc.IH)
        show "i \<le> length p" using i by simp
        show "0 \<le> extIdx ?s2" using False Suc.prems(2) by auto
        show "extIdx ?s2 < int i" using Suc.prems(3) by auto
        show "extIdx ?s2 < int (length ext)" using Suc.prems(4) by auto
        have "Suc (nat (?k - 1)) = nat ?k" using False Suc.prems(2) by auto
        then show "drop i p = drop (Suc (nat (extIdx ?s2))) ext" using m by auto
        show "firstNonSlashEnd ?s2 = int (length p) \<or> (i = length p \<and> firstNonSlashEnd ?s2 = - 1)"
          using f1 by auto
        show "scan_start ?s2 = 0" using st1 by auto
      qed
      with step show ?thesis by simp
    qed
  next
    case False
    let ?s2 = "?s1\<lparr>extIdx := - 1, scan_end := firstNonSlashEnd ?s1\<rparr>"
    have step: "basename_ext_scan p ext (Suc i) s = basename_ext_scan p ext i ?s2"
      using nosep False Suc.prems(2) by (simp add: Let_def)
    have "basename_ext_scan p ext i ?s2 = ?s2"
    proof (rule scan_settled)
      show "\<forall>j<i. p ! j \<noteq> CHR ''/''" using assms(1) i by simp
      show "extIdx ?s2 = - 1" by simp
      show "firstNonSlashEnd ?s2 \<noteq> - 1" using f1 by auto
    qed
    with step have "basename_ext_scan p ext (Suc i) s = ?s2" by simp
    moreover have "scan_start ?s2 = 0" using st1 by auto
    moreover have "scan_end ?s2 = int (length p)" using f1 by auto
    ultimately show ?thesis by simp
  qed
qed

lemma basename_plain:
  assumes "CHR ''/'' \<notin> set p" and "\<not> suffix ext p" and "length ext \<le> length p"
  shows "basename p ext = p"
proof -
  have ne: "ext \<noteq> []" using assms(2) by auto
  have np: "ext \<noteq> p" using assms(2) by auto
  have nosep: "\<forall>j<length p. p ! j \<noteq> CHR ''/''" using assms(1) by (metis nth_mem)
  let ?s0 = "\<lparr>scan_start = 0, scan_end = - 1, matchedSlash = True,
                       extIdx = int (length ext) - 1, firstNonSlashEnd = - 1\<rparr>"
  have "scan_start (basename_ext_scan p ext (length p) ?s0) = 0
    \<and> scan_end (basename_ext_scan p ext (length p) ?s0) = int (length p)"
    using nosep assms(2)
  proof (rule scan_matching)
    show "length p \<le> length p" by simp
    show "0 \<le> extIdx ?s0" using ne by (cases ext) auto
    show "extIdx ?s0 < int (length p)" using assms(3) ne by (cases ext) auto
    show "extIdx ?s0 < int (length ext)" by simp
    have "Suc (nat (int (length ext) - 1)) = length ext" using ne by (cases ext) auto
    then show "drop (length p) p = drop (Suc (nat (extIdx ?s0))) ext" by simp
    show "firstNonSlashEnd ?s0 = int (length p) \<or> (length p = length p \<and> firstNonSlashEnd ?s0 = - 1)"
      by simp
    show "scan_start ?s0 = 0" by simp
  qed
  moreover have "0 < length p" using assms(3) ne by (cases ext) auto
  ultimately show ?thesis
    using ne np assms(3) by (simp add: basename_def Let_def slice_def)
qed

lemma suffix_json_name:
  "suffix ''.json'' (pre @ ''-'' @ name) \<Longrightarrow> suffix ''.json'' name"
  by (auto simp: suffix_append suffix_Cons Cons_eq_append_conv append_eq_Cons_conv)

lemma dir_sep:
  "(if outputDir \<noteq> [] \<and> [last outputDir] = path_sep then butlast outputDir else outputDir) @ path_sep
   = (if outputDir \<noteq> [] \<and> last outputDir = CHR ''/'' then outputDir else outputDir @ ''/'')"
proof (cases "outputDir \<noteq> [] \<and> last outputDir = CHR ''/''")
  case True
  have "butlast outputDir @ [last outputDir] = outputDir"
    using True append_butlast_last_id by blast
  with True show ?thesis by (simp add: path_sep_def)
next
  case False
  then show ?thesis by (auto simp: path_sep_def)
qed

lemma uniqueFilename_plain:
  assumes "CHR ''/'' \<notin> set (hub_id h)" "CHR ''/'' \<notin> set (hub_name h)"
    and "\<not> suffix ''.json'' (hub_name h)"
  shows "uniqueFilename outputDir h =
      (if outputDir \<noteq> [] \<and> last outputDir = CHR ''/'' then outputDir else outputDir @ ''/'')
      @ ''indexes-'' @ hub_id h @ ''-'' @ hub_name h @ ''.json''"
proof -
  let ?p = "''indexes-'' @ hub_id h @ ''-'' @ hub_name h"
  have 1: "CHR ''/'' \<notin> set ?p" using assms by auto
  have 2: "\<not> suffix ''.json'' ?p"
    using assms(3) suffix_json_name[of "''indexes-'' @ hub_id h" "hub_name h"] by auto
  have 3: "length ''.json'' \<le> length ?p" by simp
  have b: "basename ?p ''.json'' = ?p" using 1 2 3 by (rule basename_plain)
  show ?thesis
    unfolding uniqueFilename_def Let_def b
    using dir_sep[of outputDir] by (simp del: append_assoc add: append_assoc[symmetric])
qed

text \<open>
  C8. If the target file exists and the user declines to overwrite it,
  \<^verbatim>\<open>processIndexes\<close> writes no file and ends normally: the result is the "nothing
  exported" outcome, the files are unchanged, and the exit status is zero.
\<close>

theorem declined_overwrite_nothing_exported:
  assumes "files w (uniqueFilename outputDir h) = Some doc"
    and "\<not> confirm_overwrite svc (uniqueFilename outputDir h)"
  shows "fst (processIndexes svc outputDir h indexes w) = Inr NothingExported
       \<and> files (snd (processIndexes svc outputDir h indexes w)) = files w
       \<and> exit_status (fst (processIndexes svc outputDir h indexes w)) = 0"
  using assms
  by (simp add: processIndexes_def promptToExportSettings_def nothingExportedExit_def
      exit_status_def)

theorem declined_overwrite_nothing_exported_witness:
  "files world1 (uniqueFilename ''out/'' acme) = Some []
   \<and> \<not> confirm_overwrite acme_services (uniqueFilename ''out/'' acme)
   \<and> fst (processIndexes acme_services ''out/'' acme [] world1) = Inr NothingExported
   \<and> files (snd (processIndexes acme_services ''out/'' acme [] world1)) = files world1
   \<and> exit_status (fst (processIndexes acme_services ''out/'' acme [] world1)) = 0"
proof -
  have n: "uniqueFilename ''out/'' acme = ''out/indexes-h1-Acme.json''"
    by code_simp
  have h1: "files world1 (uniqueFilename ''out/'' acme) = Some []"
    by (simp add: n world1_def)
  have h2: "\<not> confirm_overwrite acme_services (uniqueFilename ''out/'' acme)"
    by (simp add: acme_services_def)
  show ?thesis
    using declined_overwrite_nothing_exported [OF h1 h2, of "[]"] h1 h2 by blast
qed

text \<open>
  C9, as the code has it. For a hub whose id and name contain no path separator and
  whose name does not end in \<^verbatim>\<open>.json\<close>, and for every output directory, an approved
  export writes the entries at the directory (one separator added unless it already
  ends with one) followed by \<^verbatim>\<open>indexes-\<close>, the id, \<^verbatim>\<open>-\<close>, the name and
  \<^verbatim>\<open>.json\<close>, and at no other path.
\<close>

theorem export_path:
  assumes "CHR ''/'' \<notin> set (hub_id h)" and "CHR ''/'' \<notin> set (hub_name h)"
    and "\<not> suffix ''.json'' (hub_name h)"
    and "promptToExportSettings svc (uniqueFilename outputDir h) w"
  shows "files (snd (processIndexes svc outputDir h indexes w)) =
      (files w)((if outputDir \<noteq> [] \<and> last outputDir = CHR ''/'' then outputDir else outputDir @ ''/'')
        @ ''indexes-'' @ hub_id h @ ''-'' @ hub_name h @ ''.json'' \<mapsto> indexes)"
proof -
  have "files (snd (processIndexes svc outputDir h indexes w)) =
      (files w)(uniqueFilename outputDir h \<mapsto> indexes)"
    using assms(4) by (simp add: processIndexes_def writeJsonToFile_def)
  then show ?thesis
    by (simp only: uniqueFilename_plain [OF assms(1) assms(2) assms(3)])
qed

theorem export_path_witness:
  "CHR ''/'' \<notin> set (hub_id acme) \<and> CHR ''/'' \<notin> set (hub_name acme)
   \<and> \<not> suffix ''.json'' (hub_name acme)
   \<and> promptToExportSettings acme_services (uniqueFilename ''out'' acme) world0
   \<and> files (snd (processIndexes acme_services ''out'' acme [] world0)) =
       (files world0)(''out/indexes-h1-Acme.json'' \<mapsto> [])"
proof -
  have h1: "CHR ''/'' \<notin> set (hub_id acme)" by (simp add: acme_def)
  have h2: "CHR ''/'' \<notin> set (hub_name acme)" by (simp add: acme_def)
  have h3: "\<not> suffix ''.json'' (hub_name acme)" by (simp add: acme_def suffix_Cons)
  have h4: "promptToExportSettings acme_services (uniqueFilename ''out'' acme) world0"
    by (simp add: promptToExportSettings_def world0_def)
  show ?thesis
    using export_path [OF h1 h2 h3 h4, of "[]"] h1 h2 h3 h4 by (simp add: acme_def)
qed

text \<open>
  The claim as the spec words it fails for a hub name with a separator: the file is named
  after the last component only.
\<close>

theorem export_path_counterexample:
  "files (snd (processIndexes acme_services ''out'' \<lparr>hub_id = ''h1'', hub_name = ''Acme/EU''\<rparr> [] world0))
     (''out'' @ ''/'' @ ''indexes-'' @ ''h1'' @ ''-'' @ ''Acme/EU'' @ ''.json'') = None
   \<and> files (snd (processIndexes acme_services ''out'' \<lparr>hub_id = ''h1'', hub_name = ''Acme/EU''\<rparr> [] world0))
     ''out/EU.json'' = Some []"
proof -
  have n: "uniqueFilename ''out'' \<lparr>hub_id = ''h1'', hub_name = ''Acme/EU''\<rparr> = ''out/EU.json''"
    by code_simp
  show ?thesis
    by (simp add: processIndexes_def promptToExportSettings_def writeJsonToFile_def n world0_def)
qed

section \<open>The entries of a successful run\<close>

lemma rejections_Nil_iff: "rejections ps = [] \<longleftrightarrow> map snd ps = map Inr (fulfilments ps)"
  by (induction ps rule: rejections.induct) auto

lemma fulfilments_map_Inr: "map snd ps = map Inr vs \<Longrightarrow> fulfilments ps = vs"
proof (induction ps arbitrary: vs rule: fulfilments.induct)
  case 1
  then show ?case by simp
next
  case (2 t e ps)
  then show ?case by auto
next
  case (3 t v ps)
  then show ?case by auto
qed

lemma Promise_all_Inr_iff: "Promise_all ps = Inr vs \<longleftrightarrow> map snd ps = map Inr vs"
proof
  assume "Promise_all ps = Inr vs"
  then have "rejections ps = []" and "fulfilments ps = vs"
    by (auto simp: Promise_all_def split: list.splits)
  then show "map snd ps = map Inr vs"
    using rejections_Nil_iff[of ps] by simp
next
  assume m: "map snd ps = map Inr vs"
  then have f: "fulfilments ps = vs" by (rule fulfilments_map_Inr)
  with m have "rejections ps = []" using rejections_Nil_iff[of ps] by simp
  with f show "Promise_all ps = Inr vs" by (simp add: Promise_all_def)
qed

lemma bind_io_Inr_iff:
  "fst (bind_io m f w) = Inr v \<longleftrightarrow> (\<exists>u. fst (m w) = Inr u \<and> fst (f u (snd (m w))) = Inr v)"
  by (auto simp: bind_io_def split: prod.splits sum.splits)

lemma return_io_Inr_iff: "fst (return_io u w) = Inr v \<longleftrightarrow> u = v"
  by (auto simp: return_io_def)

lemma lift_io_fst: "fst (lift_io r w) = r"
  by (simp add: lift_io_def)

lemma fetch_each_Inr_iff:
  "fst (fetch_each k get reqs w) = Inr vs \<longleftrightarrow> map (\<lambda>a. snd (get a)) (map snd reqs) = map Inr vs"
  by (simp add: fetch_each_def await_all_def Promise_all_Inr_iff case_prod_beta comp_def)

lemma sequence_Inr_iff: "sequence rs = Inr vs \<longleftrightarrow> rs = map Inr vs"
proof (induction rs arbitrary: vs rule: sequence.induct)
  case 1
  then show ?case by auto
next
  case (2 e rs)
  then show ?case by auto
next
  case (3 v rs)
  show ?case
  proof (cases "sequence rs")
    case (Inl e)
    with 3[of "tl vs"] show ?thesis by (cases vs) auto
  next
    case (Inr us)
    with 3[of us] 3[of "tl vs"] show ?thesis by (cases vs) auto
  qed
qed

lemma settingsList_Inr_iff:
  "fst (settingsList svc ixs w) = Inr S \<longleftrightarrow>
     map (\<lambda>item. snd (getIndexSettings svc (index_id item))) ixs = map Inr S"
  by (simp add: settingsList_def fetch_each_Inr_iff comp_def)

lemma assignedContentTypesList_Inr_iff:
  "fst (assignedContentTypesList svc ixs w) = Inr A \<longleftrightarrow>
     map (\<lambda>item. snd (getIndexAssignedContentTypes svc (index_id item))) ixs = map Inr A"
  by (simp add: assignedContentTypesList_def fetch_each_Inr_iff comp_def)

lemma contentWebhooksList_Inr_iff:
  "fst (contentWebhooksList k svc refs w) = Inr L \<longleftrightarrow>
     map (\<lambda>r. snd (webhook_promise svc r)) refs = map Inr L"
  by (simp add: contentWebhooksList_def await_all_def Promise_all_Inr_iff comp_def)

lemma replicaIndexesList_Inr:
  "fst (replicaIndexesList svc i names w) = Inr ril \<Longrightarrow>
     list_all2 (\<lambda>ns ds. map (\<lambda>a. snd (getIndexByName svc a)) ns = map Inr ds) names ril"
proof (induction names arbitrary: i w ril)
  case Nil
  then show ?case by (simp add: return_io_def)
next
  case (Cons ns rest)
  from Cons.prems obtain ds more where
    d: "fst ((if length ns > 0 then fetch_each IndexByName (getIndexByName svc) (map (Pair i) ns)
              else return_io []) w) = Inr ds"
    and m: "\<exists>w'. fst (replicaIndexesList svc (Suc i) rest w') = Inr more"
    and r: "ril = ds # more"
    by (auto simp: bind_io_Inr_iff return_io_Inr_iff)
  from d have "map (\<lambda>a. snd (getIndexByName svc a)) ns = map Inr ds"
    by (auto simp: fetch_each_Inr_iff return_io_Inr_iff comp_def split: if_splits)
  moreover from m Cons.IH have
    "list_all2 (\<lambda>ns ds. map (\<lambda>a. snd (getIndexByName svc a)) ns = map Inr ds) rest more"
    by blast
  ultimately show ?case using r by simp
qed

lemma replicaIndexSettingsList_Inr:
  "fst (replicaIndexSettingsList svc i ril w) = Inr rsl \<Longrightarrow>
     list_all2 (\<lambda>ds ss. map (\<lambda>d. snd (getIndexSettings svc (index_id d))) ds = map Inr ss) ril rsl"
proof (induction ril arbitrary: i w rsl)
  case Nil
  then show ?case by (simp add: return_io_def)
next
  case (Cons ds rest)
  from Cons.prems obtain ss more where
    d: "fst ((if length ds > 0
              then fetch_each ReplicaSettings (getIndexSettings svc) (map (Pair i) (map index_id ds))
              else return_io []) w) = Inr ss"
    and m: "\<exists>w'. fst (replicaIndexSettingsList svc (Suc i) rest w') = Inr more"
    and r: "rsl = ss # more"
    by (auto simp: bind_io_Inr_iff return_io_Inr_iff)
  from d have "map (\<lambda>d. snd (getIndexSettings svc (index_id d))) ds = map Inr ss"
    by (auto simp: fetch_each_Inr_iff return_io_Inr_iff comp_def split: if_splits)
  moreover from m Cons.IH have
    "list_all2 (\<lambda>ds ss. map (\<lambda>d. snd (getIndexSettings svc (index_id d))) ds = map Inr ss) rest more"
    by blast
  ultimately show ?case using r by simp
qed

lemma final_success:
  assumes "fst (finalIndexesListDetails svc ixs w) = Inr out"
  obtains S A refs AL RL AP RP ril rsl where
    "map (\<lambda>item. snd (getIndexSettings svc (index_id item))) ixs = map Inr S"
    "map (\<lambda>item. snd (getIndexAssignedContentTypes svc (index_id item))) ixs = map Inr A"
    "map contentWebhooks A = map Inr refs"
    "map (\<lambda>r. snd (webhook_promise svc (fst r))) refs = map Inr AL"
    "map (\<lambda>r. snd (webhook_promise svc (snd r))) refs = map Inr RL"
    "map contentWebhooksPayload AL = map Inr AP"
    "map contentWebhooksPayload RL = map Inr RP"
    "list_all2 (\<lambda>ns ds. map (\<lambda>a. snd (getIndexByName svc a)) ns = map Inr ds) (map replicas_of S) ril"
    "list_all2 (\<lambda>ds ss. map (\<lambda>d. snd (getIndexSettings svc (index_id d))) ds = map Inr ss) ril rsl"
    "out = map (indexEntry ixs S A AP RP (map replicas_of S) ril rsl)
             (filter (\<lambda>i. \<not> truthy (parentId (ixs ! i))) [0..<length ixs])"
proof (cases "ixs = []")
  case True
  with assms have "out = []"
    by (simp add: finalIndexesListDetails_def return_io_def)
  with True show ?thesis
    using that[of "[]" "[]" "[]" "[]" "[]" "[]" "[]" "[]" "[]"] by simp
next
  case False
  with assms obtain S A refs AL RL AP RP ril rsl w1 w2 w3 w4 w5 w6 where
    1: "fst (settingsList svc ixs w1) = Inr S"
    and 2: "fst (assignedContentTypesList svc ixs w2) = Inr A"
    and 3: "sequence (map contentWebhooks A) = Inr refs"
    and 4: "fst (contentWebhooksList ActiveWebhook svc (map fst refs) w3) = Inr AL"
    and 5: "fst (contentWebhooksList ArchivedWebhook svc (map snd refs) w4) = Inr RL"
    and 6: "sequence (map contentWebhooksPayload AL) = Inr AP"
    and 7: "sequence (map contentWebhooksPayload RL) = Inr RP"
    and 8: "fst (replicaIndexesList svc 0 (map replicas_of S) w5) = Inr ril"
    and 9: "fst (replicaIndexSettingsList svc 0 ril w6) = Inr rsl"
    and 10: "out = map (indexEntry ixs S A AP RP (map replicas_of S) ril rsl)
             (filter (\<lambda>i. \<not> truthy (parentId (ixs ! i))) [0..<length ixs])"
    unfolding finalIndexesListDetails_def
    by (simp add: bind_io_Inr_iff return_io_Inr_iff lift_io_fst) blast
  show ?thesis
    using that[of S A refs AL RL AP RP ril rsl]
      1 2 3 4 5 6 7 10 replicaIndexesList_Inr[OF 8] replicaIndexSettingsList_Inr[OF 9]
    by (simp add: settingsList_Inr_iff assignedContentTypesList_Inr_iff sequence_Inr_iff
        contentWebhooksList_Inr_iff comp_def)
qed

lemma map_eq_nth:
  assumes "map f xs = map g ys" "i < length xs"
  shows "f (xs ! i) = g (ys ! i)" and "i < length ys"
proof -
  from assms(1) have l: "length xs = length ys" by (rule map_eq_imp_length_eq)
  with assms(2) show "i < length ys" by simp
  from assms(1) have "map f xs ! i = map g ys ! i" by simp
  with assms(2) l show "f (xs ! i) = g (ys ! i)" by simp
qed

lemma truncate_extend: "index_summary.truncate (index_summary.extend r m) = r"
  by (simp add: index_summary.truncate_def index_summary.extend_def)


lemma filter_by_index:
  "map ((!) xs) (filter (\<lambda>i. P (xs ! i)) [0..<length xs]) = filter P xs"
proof -
  have "filter P xs = filter P (map ((!) xs) [0..<length xs])" by (simp add: map_nth)
  also have "\<dots> = map ((!) xs) (filter (P \<circ> (!) xs) [0..<length xs])" by (rule filter_map)
  finally show ?thesis by (simp add: comp_def)
qed




lemma acme_run: "fst (finalIndexesListDetails acme_services acme_indexes world0) = Inr [acme_entry]"
  by code_simp



text \<open>
  C1, as the code has it. When the aggregation succeeds, the exported sequence has exactly
  one entry for every index of the listing whose \<^verbatim>\<open>parentId\<close> is falsy (missing or the
  empty string), in the order of the listing, and no entry for an index with a non-empty
  \<^verbatim>\<open>parentId\<close>: stripped of \<^verbatim>\<open>assignedContentTypes\<close>, the \<^verbatim>\<open>indexDetails\<close> of the
  entries are the listing filtered by \<^verbatim>\<open>!item.parentId\<close>.
\<close>

theorem top_level_entries:
  assumes "fst (finalIndexesListDetails svc ixs w) = Inr out"
  shows "map (\<lambda>e. index_summary.truncate (indexDetails e)) out =
           filter (\<lambda>item. \<not> truthy (parentId item)) ixs"
proof -
  from assms obtain S A refs AL RL AP RP ril rsl where
    out: "out = map (indexEntry ixs S A AP RP (map replicas_of S) ril rsl)
             (filter (\<lambda>i. \<not> truthy (parentId (ixs ! i))) [0..<length ixs])"
    by (rule final_success)
  have "map (\<lambda>e. index_summary.truncate (indexDetails e)) out =
      map ((!) ixs) (filter (\<lambda>i. \<not> truthy (parentId (ixs ! i))) [0..<length ixs])"
    by (simp add: out comp_def indexEntry_def truncate_extend)
  also have "\<dots> = filter (\<lambda>item. \<not> truthy (parentId item)) ixs"
    by (rule filter_by_index[of ixs "\<lambda>item. \<not> truthy (parentId item)"])
  finally show ?thesis .
qed

text \<open>The scenario of the spec: one entry, for \<^verbatim>\<open>i1\<close>, none for the replica \<^verbatim>\<open>i2\<close>.\<close>

theorem top_level_entries_witness:
  "fst (finalIndexesListDetails acme_services acme_indexes world0) = Inr [acme_entry]
   \<and> map (\<lambda>e. index_summary.truncate (indexDetails e)) [acme_entry] =
       filter (\<lambda>item. \<not> truthy (parentId item)) acme_indexes"
  using top_level_entries [OF acme_run] acme_run by simp

text \<open>
  The claim as the spec words it fails for an index whose \<^verbatim>\<open>parentId\<close> is present and
  empty: \<^verbatim>\<open>!item.parentId\<close> is true for it, and it is exported as a top-level entry.
\<close>

theorem top_level_entries_counterexample:
  "parentId blank_parent_index = Some ''''
   \<and> fst (finalIndexesListDetails acme_services [blank_parent_index] world0) = Inr [blank_parent_entry]"
  by code_simp











section \<open>The batches of a run\<close>

lemma yieldsD:
  assumes "yields m Q"
  obtains bs where "snd (m w) = w\<lparr>fetches := fetches w @ bs\<rparr>" and "Q (fst (m w)) bs"
  using assms unfolding yields_def by blast

lemma yields_weaken: "yields m Q \<Longrightarrow> (\<And>r bs. Q r bs \<Longrightarrow> P r bs) \<Longrightarrow> yields m P"
  unfolding yields_def by blast

lemma yields_return: "Q (Inr v) [] \<Longrightarrow> yields (return_io v) Q"
  unfolding yields_def return_io_def by (auto intro!: exI[of _ "[]"])

lemma yields_lift: "Q r [] \<Longrightarrow> yields (lift_io r) Q"
  unfolding yields_def lift_io_def by (auto intro!: exI[of _ "[]"])

lemma yields_await_all: "Q (Promise_all ps) [fs] \<Longrightarrow> yields (await_all fs ps) Q"
  unfolding yields_def await_all_def by auto

lemma yields_bind:
  assumes m: "yields m Q"
    and f: "\<And>v bs1. Q (Inr v) bs1 \<Longrightarrow> yields (f v) (\<lambda>r bs2. P r (bs1 @ bs2))"
    and e: "\<And>e bs. Q (Inl e) bs \<Longrightarrow> P (Inl e) bs"
  shows "yields (bind_io m f) P"
  unfolding yields_def
proof
  fix w
  from m obtain bs1 where w1: "snd (m w) = w\<lparr>fetches := fetches w @ bs1\<rparr>"
    and q: "Q (fst (m w)) bs1" by (rule yieldsD)
  show "\<exists>bs. snd (bind_io m f w) = w\<lparr>fetches := fetches w @ bs\<rparr> \<and> P (fst (bind_io m f w)) bs"
  proof (cases "fst (m w)")
    case (Inl err)
    then have "bind_io m f w = (Inl err, snd (m w))"
      by (cases "m w") (simp add: bind_io_def)
    with w1 q Inl e show ?thesis by auto
  next
    case (Inr v)
    then have b: "bind_io m f w = f v (snd (m w))"
      by (cases "m w") (simp add: bind_io_def)
    from q Inr have "yields (f v) (\<lambda>r bs2. P r (bs1 @ bs2))" by (simp add: f)
    then obtain bs2 where w2: "snd (f v (snd (m w))) = (snd (m w))\<lparr>fetches := fetches (snd (m w)) @ bs2\<rparr>"
      and p: "P (fst (f v (snd (m w)))) (bs1 @ bs2)" by (rule yieldsD)
    from w1 w2 have "snd (bind_io m f w) = w\<lparr>fetches := fetches w @ (bs1 @ bs2)\<rparr>"
      by (simp add: b)
    with p b show ?thesis by metis
  qed
qed

lemma batch_rejections_Nil [simp]: "batch_rejections [] = []"
  by (simp add: batch_rejections_def)

lemma batch_rejections_Cons:
  "batch_rejections (f # b) =
     (case rejection f of None \<Rightarrow> [] | Some e \<Rightarrow> [(settled f, e)]) @ batch_rejections b"
  by (simp add: batch_rejections_def)

lemma batch_rejections_append:
  "batch_rejections (b @ c) = batch_rejections b @ batch_rejections c"
  by (simp add: batch_rejections_def)

lemma rejections_Cons:
  "rejections (p # ps) = (case snd p of Inl e \<Rightarrow> [(fst p, e)] | Inr v \<Rightarrow> []) @ rejections ps"
  by (cases p; cases "snd p") auto

lemma batch_rejections_fetch_of:
  "batch_rejections (fetch_of k i a p # b) =
     (case snd p of Inl e \<Rightarrow> [(fst p, e)] | Inr v \<Rightarrow> []) @ batch_rejections b"
  by (cases "snd p") (auto simp: batch_rejections_def fetch_of_def)

lemma batch_rejections_fetch_each:
  "batch_rejections (map (\<lambda>(i, a). fetch_of k i a (get a)) reqs) =
     rejections (map (\<lambda>(i, a). get a) reqs)"
  by (induction reqs) (auto simp: rejections_Cons batch_rejections_fetch_of)

lemma webhook_fetches_Nil: "webhook_fetches k svc [] = []"
  by (simp add: webhook_fetches_def)

lemma webhook_fetches_Cons:
  "webhook_fetches k svc ((i, item) # irefs) =
      (case item of None \<Rightarrow> []
       | Some a \<Rightarrow> if a \<noteq> [] then [fetch_of k i a (webhooks_get svc a)] else [])
      @ webhook_fetches k svc irefs"
  by (simp add: webhook_fetches_def)

lemma rejections_webhook_promise:
  "rejections (webhook_promise svc item # ps) =
     batch_rejections (case item of None \<Rightarrow> []
       | Some a \<Rightarrow> if a \<noteq> [] then [fetch_of k i a (webhooks_get svc a)] else [])
     @ rejections ps"
  by (auto simp: rejections_Cons batch_rejections_fetch_of webhook_promise_def
        resolved_def map_promise_def split: option.splits sum.splits)

lemma batch_rejections_webhooks:
  "batch_rejections (webhook_fetches k svc irefs) =
     rejections (map (\<lambda>ir. webhook_promise svc (snd ir)) irefs)"
proof (induction irefs)
  case Nil
  then show ?case by (simp add: webhook_fetches_Nil)
next
  case (Cons q irefs)
  obtain i item where q: "q = (i, item)" by (cases q)
  show ?case
    unfolding q
    by (simp only: webhook_fetches_Cons batch_rejections_append Cons.IH list.map snd_conv
        rejections_webhook_promise[of svc item _ k i])
qed

lemma no_rejection_iff: "no_rejection b \<longleftrightarrow> batch_rejections b = []"
  by (induction b) (auto simp: no_rejection_def batch_rejections_Cons split: option.splits)

lemma fail_fast_Nil: "fail_fast r []"
  by (simp add: fail_fast_def)

lemma fail_fast_single:
  assumes "batch_rejections b = rejections ps"
  shows "fail_fast (Promise_all ps) [b]"
proof (cases "rejections ps")
  case Nil
  with assms have "no_rejection b" by (simp add: no_rejection_iff)
  then show ?thesis by (simp add: fail_fast_def)
next
  case (Cons r rs)
  with assms have "first_rejection b = Some (snd (earliest r rs))"
    by (simp add: first_rejection_def)
  moreover from Cons have "Promise_all ps = Inl (snd (earliest r rs))"
    by (simp add: Promise_all_def)
  ultimately show ?thesis by (simp add: fail_fast_def)
qed

lemma fail_fast_append:
  assumes "fail_fast (Inr v) bs1" and "fail_fast r bs2"
  shows "fail_fast r (bs1 @ bs2)"
proof -
  from assms(1) have 1: "\<forall>b\<in>set bs1. no_rejection b"
    by (simp add: fail_fast_def)
  from assms(2) show ?thesis
    unfolding fail_fast_def
  proof
    assume "\<forall>b\<in>set bs2. no_rejection b"
    with 1 show "(\<forall>b\<in>set (bs1 @ bs2). no_rejection b) \<or>
      (bs1 @ bs2 \<noteq> [] \<and> (\<forall>b\<in>set (butlast (bs1 @ bs2)). no_rejection b)
        \<and> (\<exists>e. r = Inl e \<and> first_rejection (last (bs1 @ bs2)) = Some e))"
      by auto
  next
    assume 2: "bs2 \<noteq> [] \<and> (\<forall>b\<in>set (butlast bs2). no_rejection b)
      \<and> (\<exists>e. r = Inl e \<and> first_rejection (last bs2) = Some e)"
    then have "butlast (bs1 @ bs2) = bs1 @ butlast bs2" and "last (bs1 @ bs2) = last bs2"
      by (simp_all add: butlast_append)
    with 1 2 show "(\<forall>b\<in>set (bs1 @ bs2). no_rejection b) \<or>
      (bs1 @ bs2 \<noteq> [] \<and> (\<forall>b\<in>set (butlast (bs1 @ bs2)). no_rejection b)
        \<and> (\<exists>e. r = Inl e \<and> first_rejection (last (bs1 @ bs2)) = Some e))"
      by auto
  qed
qed

lemma fail_fast_Inl: "fail_fast (Inl e :: error + 'a) bs \<Longrightarrow> fail_fast (Inl e :: error + 'b) bs"
  by (simp add: fail_fast_def)

lemma stage_Nil: "stage n G lo hi r []"
  by (simp add: stage_def fail_fast_Nil)

lemma stage_single:
  assumes "fail_fast r [b]"
    and "\<And>f. f \<in> set b \<Longrightarrow> rank n f = \<rho> \<and> G f" and "lo \<le> \<rho>" and "\<rho> < hi"
  shows "stage n G lo hi r [b]"
  using assms by (simp add: stage_def)

lemma stage_append:
  assumes 1: "stage n G lo mid (Inr v) bs1" and 2: "stage n G mid hi r bs2"
    and "lo \<le> mid" and "mid \<le> hi"
  shows "stage n G lo hi r (bs1 @ bs2)"
proof -
  let ?P = "\<lambda>b c. \<forall>f\<in>set b. \<forall>g\<in>set c. rank n f < rank n g"
  let ?B = "\<lambda>lo hi b. \<forall>f\<in>set b. lo \<le> rank n f \<and> rank n f < hi \<and> G f
            \<and> (\<forall>g\<in>set b. rank n g = rank n f)"
  from 1 have f1: "fail_fast (Inr v) bs1" and s1: "sorted_wrt ?P bs1"
    and b1: "\<forall>b\<in>set bs1. ?B lo mid b"
    unfolding stage_def by blast+
  from 2 have f2: "fail_fast r bs2" and s2: "sorted_wrt ?P bs2"
    and b2: "\<forall>b\<in>set bs2. ?B mid hi b"
    unfolding stage_def by blast+
  have f: "fail_fast r (bs1 @ bs2)"
    using f1 f2 by (rule fail_fast_append)
  have x: "\<forall>b\<in>set bs1. \<forall>c\<in>set bs2. ?P b c"
  proof (intro ballI)
    fix b c f g
    assume "b \<in> set bs1" "c \<in> set bs2" "f \<in> set b" "g \<in> set c"
    with b1 b2 have "rank n f < mid" and "mid \<le> rank n g" by blast+
    then show "rank n f < rank n g" by simp
  qed
  have s: "sorted_wrt ?P (bs1 @ bs2)"
    using s1 s2 x by (simp only: sorted_wrt_append)
  have b: "\<forall>b\<in>set (bs1 @ bs2). ?B lo hi b"
  proof
    fix b
    assume "b \<in> set (bs1 @ bs2)"
    then consider "b \<in> set bs1" | "b \<in> set bs2" by auto
    then show "?B lo hi b"
    proof cases
      case 1
      with b1 have "?B lo mid b" by blast
      with assms(4) show ?thesis by (meson less_le_trans)
    next
      case 2
      with b2 have "?B mid hi b" by blast
      with assms(3) show ?thesis by (meson le_trans)
    qed
  qed
  from f s b show ?thesis unfolding stage_def by blast
qed

lemma stage_Inl:
  assumes "stage n G lo mid (Inl e :: error + 'a) bs" and "mid \<le> hi"
  shows "stage n G lo hi (Inl e :: error + 'b) bs"
proof -
  let ?P = "\<lambda>b c. \<forall>f\<in>set b. \<forall>g\<in>set c. rank n f < rank n g"
  let ?B = "\<lambda>lo hi b. \<forall>f\<in>set b. lo \<le> rank n f \<and> rank n f < hi \<and> G f
            \<and> (\<forall>g\<in>set b. rank n g = rank n f)"
  from assms(1) have f1: "fail_fast (Inl e :: error + 'a) bs" and s1: "sorted_wrt ?P bs"
    and b1: "\<forall>b\<in>set bs. ?B lo mid b"
    unfolding stage_def by blast+
  from f1 have f: "fail_fast (Inl e :: error + 'b) bs" by (rule fail_fast_Inl)
  have b: "\<forall>b\<in>set bs. ?B lo hi b"
  proof
    fix b
    assume "b \<in> set bs"
    with b1 have "?B lo mid b" by blast
    with assms(2) show "?B lo hi b" by (meson less_le_trans)
  qed
  from f s1 b show ?thesis unfolding stage_def by blast
qed

lemma stage_bind:
  assumes m: "yields m (\<lambda>r bs. stage n G lo mid r bs \<and> (\<forall>v. r = Inr v \<longrightarrow> D v))"
    and f: "\<And>v. D v \<Longrightarrow> yields (f v) (\<lambda>r bs. stage n G mid hi r bs \<and> (\<forall>u. r = Inr u \<longrightarrow> E u))"
    and "lo \<le> mid" and "mid \<le> hi"
  shows "yields (bind_io m f) (\<lambda>r bs. stage n G lo hi r bs \<and> (\<forall>u. r = Inr u \<longrightarrow> E u))"
proof (rule yields_bind[OF m])
  fix v bs1
  assume a: "stage n G lo mid (Inr v) bs1 \<and> (\<forall>va. Inr v = Inr va \<longrightarrow> D va)"
  then have "D v" by simp
  then have "yields (f v) (\<lambda>r bs. stage n G mid hi r bs \<and> (\<forall>u. r = Inr u \<longrightarrow> E u))"
    by (rule f)
  then show "yields (f v) (\<lambda>r bs2. stage n G lo hi r (bs1 @ bs2) \<and> (\<forall>u. r = Inr u \<longrightarrow> E u))"
  proof (rule yields_weaken)
    fix r bs
    assume "stage n G mid hi r bs \<and> (\<forall>u. r = Inr u \<longrightarrow> E u)"
    with a assms(3,4) show "stage n G lo hi r (bs1 @ bs) \<and> (\<forall>u. r = Inr u \<longrightarrow> E u)"
      using stage_append[of n G lo mid v bs1 hi r bs] by simp
  qed
next
  fix e bs
  assume "stage n G lo mid (Inl e) bs \<and> (\<forall>v. Inl e = Inr v \<longrightarrow> D v)"
  with assms(4) show "stage n G lo hi (Inl e) bs \<and> (\<forall>u. Inl e = Inr u \<longrightarrow> E u)"
    using stage_Inl[of n G lo mid e bs hi] by simp
qed

lemma stage_bind0:
  assumes m: "yields m (\<lambda>r bs. stage n G lo mid r bs \<and> (\<forall>v. r = Inr v \<longrightarrow> D v))"
    and f: "\<And>v. D v \<Longrightarrow> yields (f v) (stage n G mid hi)"
    and "lo \<le> mid" and "mid \<le> hi"
  shows "yields (bind_io m f) (stage n G lo hi)"
proof -
  have "yields (bind_io m f) (\<lambda>r bs. stage n G lo hi r bs \<and> (\<forall>u. r = Inr u \<longrightarrow> True))"
  proof (rule stage_bind[OF m _ assms(3,4)])
    fix v
    assume "D v"
    then have "yields (f v) (stage n G mid hi)" by (rule f)
    then show "yields (f v) (\<lambda>r bs. stage n G mid hi r bs \<and> (\<forall>u. r = Inr u \<longrightarrow> True))"
      by (rule yields_weaken) simp
  qed
  then show ?thesis by (rule yields_weaken) simp
qed

lemma rank_fetch_of:
  "rank n (fetch_of k i a p) =
     (case k of IndexSettings \<Rightarrow> 0 | AssignedContentTypes \<Rightarrow> 1 | ActiveWebhook \<Rightarrow> 2
      | ArchivedWebhook \<Rightarrow> 3 | IndexByName \<Rightarrow> 4 + i | ReplicaSettings \<Rightarrow> 4 + n + i)"
  by (cases k) (simp_all add: rank_def fetch_of_def)

lemma fetch_each_stage:
  assumes "\<And>i a. (i, a) \<in> set reqs \<Longrightarrow> rank n (fetch_of k i a (get a)) = \<rho> \<and> G (fetch_of k i a (get a))"
    and "lo \<le> \<rho>" and "\<rho> < hi"
  shows "yields (fetch_each k get reqs)
     (\<lambda>r bs. stage n G lo hi r bs
        \<and> (\<forall>vs. r = Inr vs \<longrightarrow> map (\<lambda>a. snd (get a)) (map snd reqs) = map Inr vs))"
  unfolding fetch_each_def
proof (rule yields_await_all, intro conjI allI impI)
  let ?b = "map (\<lambda>(i, a). fetch_of k i a (get a)) reqs"
  let ?ps = "map (\<lambda>(i, a). get a) reqs"
  have ff: "fail_fast (Promise_all ?ps) [?b]"
    by (rule fail_fast_single) (rule batch_rejections_fetch_each)
  show "stage n G lo hi (Promise_all ?ps) [?b]"
  proof (rule stage_single[OF ff _ assms(2,3)])
    fix f
    assume "f \<in> set ?b"
    then obtain i a where "(i, a) \<in> set reqs" and "f = fetch_of k i a (get a)" by auto
    with assms(1) show "rank n f = \<rho> \<and> G f" by simp
  qed
next
  fix vs
  assume "Promise_all (map (\<lambda>(i, a). get a) reqs) = Inr vs"
  then show "map (\<lambda>a. snd (get a)) (map snd reqs) = map Inr vs"
    by (simp add: Promise_all_Inr_iff case_prod_beta comp_def)
qed

lemma webhook_fetches_mem:
  "f \<in> set (webhook_fetches k svc irefs) \<Longrightarrow> \<exists>i a. f = fetch_of k i a (webhooks_get svc a)"
proof (induction irefs)
  case Nil
  then show ?case by (simp add: webhook_fetches_Nil)
next
  case (Cons q irefs)
  obtain i item where q: "q = (i, item)" by (cases q)
  from Cons.prems consider
    "f \<in> set (case item of None \<Rightarrow> []
       | Some a \<Rightarrow> if a \<noteq> [] then [fetch_of k i a (webhooks_get svc a)] else [])"
    | "f \<in> set (webhook_fetches k svc irefs)"
    by (auto simp: q webhook_fetches_Cons)
  then show ?case
  proof cases
    case 1
    then obtain a where "f = fetch_of k i a (webhooks_get svc a)"
      by (cases item) (auto split: if_splits)
    then show ?thesis by blast
  next
    case 2
    then show ?thesis by (rule Cons.IH)
  qed
qed

lemma contentWebhooksList_stage:
  assumes "\<And>i a. rank n (fetch_of k i a (webhooks_get svc a)) = \<rho>
      \<and> G (fetch_of k i a (webhooks_get svc a))"
    and "lo \<le> \<rho>" and "\<rho> < hi"
  shows "yields (contentWebhooksList k svc refs)
     (\<lambda>r bs. stage n G lo hi r bs
        \<and> (\<forall>L. r = Inr L \<longrightarrow> map (\<lambda>r. snd (webhook_promise svc r)) refs = map Inr L))"
  unfolding contentWebhooksList_def
proof (rule yields_await_all, intro conjI allI impI)
  let ?b = "webhook_fetches k svc (zip [0..<length refs] refs)"
  let ?ps = "map (webhook_promise svc) refs"
  have "map (\<lambda>ir. webhook_promise svc (snd ir)) (zip [0..<length refs] refs) = ?ps"
    by (rule nth_equalityI) simp_all
  then have "batch_rejections ?b = rejections ?ps"
    by (simp only: batch_rejections_webhooks)
  then have ff: "fail_fast (Promise_all ?ps) [?b]" by (rule fail_fast_single)
  show "stage n G lo hi (Promise_all ?ps) [?b]"
  proof (rule stage_single[OF ff _ assms(2,3)])
    fix f
    assume "f \<in> set ?b"
    from webhook_fetches_mem[OF this] obtain i a where "f = fetch_of k i a (webhooks_get svc a)"
      by blast
    with assms(1) show "rank n f = \<rho> \<and> G f" by simp
  qed
next
  fix L
  assume "Promise_all (map (webhook_promise svc) refs) = Inr L"
  then show "map (\<lambda>r. snd (webhook_promise svc r)) refs = map Inr L"
    by (simp add: Promise_all_Inr_iff comp_def)
qed

lemma lift_stage:
  "yields (lift_io r) (\<lambda>r' bs. stage n G lo lo r' bs \<and> (\<forall>v. r' = Inr v \<longrightarrow> r = Inr v))"
  by (rule yields_lift) (simp add: stage_Nil)

lemma return_stage:
  "yields (return_io v) (\<lambda>r bs. stage n G lo lo r bs \<and> (\<forall>u. r = Inr u \<longrightarrow> u = v))"
  by (rule yields_return) (simp add: stage_Nil)

lemma replicaIndexesList_stage:
  "(\<forall>k<length names. names ! k \<noteq> [] \<longrightarrow>
       (\<forall>a. G (fetch_of IndexByName (i + k) a (getIndexByName svc a)))) \<Longrightarrow>
   yields (replicaIndexesList svc i names)
     (\<lambda>r bs. stage n G (4 + i) (4 + i + length names) r bs
        \<and> (\<forall>ril. r = Inr ril \<longrightarrow> map length ril = map length names))"
proof (induction names arbitrary: i)
  case Nil
  show ?case by (simp add: yields_return stage_Nil)
next
  case (Cons ns rest)
  let ?first = "if length ns > 0
      then fetch_each IndexByName (getIndexByName svc) (map (Pair i) ns) else return_io []"
  have first: "yields ?first (\<lambda>r bs. stage n G (4 + i) (4 + i + 1) r bs
        \<and> (\<forall>d. r = Inr d \<longrightarrow> length d = length ns))"
  proof (cases "ns = []")
    case True
    then show ?thesis by (simp add: yields_return stage_Nil)
  next
    case False
    have g: "\<And>a. G (fetch_of IndexByName i a (getIndexByName svc a))"
      using Cons.prems[rule_format, of 0] False by simp
    have "yields (fetch_each IndexByName (getIndexByName svc) (map (Pair i) ns))
       (\<lambda>r bs. stage n G (4 + i) (4 + i + 1) r bs
        \<and> (\<forall>vs. r = Inr vs \<longrightarrow>
              map (\<lambda>a. snd (getIndexByName svc a)) (map snd (map (Pair i) ns)) = map Inr vs))"
      by (rule fetch_each_stage[where \<rho> = "4 + i"]) (auto simp: rank_fetch_of g)
    then have "yields (fetch_each IndexByName (getIndexByName svc) (map (Pair i) ns))
       (\<lambda>r bs. stage n G (4 + i) (4 + i + 1) r bs
        \<and> (\<forall>d. r = Inr d \<longrightarrow> length d = length ns))"
    proof (rule yields_weaken)
      fix r bs
      assume a: "stage n G (4 + i) (4 + i + 1) r bs \<and> (\<forall>vs. r = Inr vs \<longrightarrow>
              map (\<lambda>a. snd (getIndexByName svc a)) (map snd (map (Pair i) ns)) = map Inr vs)"
      show "stage n G (4 + i) (4 + i + 1) r bs \<and> (\<forall>d. r = Inr d \<longrightarrow> length d = length ns)"
      proof (intro conjI allI impI)
        show "stage n G (4 + i) (4 + i + 1) r bs" using a by simp
      next
        fix d
        assume "r = Inr d"
        with a have "map (\<lambda>a. snd (getIndexByName svc a)) (map snd (map (Pair i) ns)) = map Inr d"
          by simp
        then have "length (map snd (map (Pair i) ns)) = length d"
          by (rule map_eq_imp_length_eq)
        then show "length d = length ns" by simp
      qed
    qed
    with False show ?thesis by simp
  qed
  have rest: "yields (replicaIndexesList svc (Suc i) rest)
     (\<lambda>r bs. stage n G (4 + Suc i) (4 + Suc i + length rest) r bs
        \<and> (\<forall>ril. r = Inr ril \<longrightarrow> map length ril = map length rest))"
  proof (rule Cons.IH, intro allI impI)
    fix k a
    assume "k < length rest" "rest ! k \<noteq> []"
    then have "Suc k < length (ns # rest)" "(ns # rest) ! Suc k \<noteq> []" by simp_all
    then have "G (fetch_of IndexByName (i + Suc k) a (getIndexByName svc a))"
      using Cons.prems[rule_format, of "Suc k" a] by blast
    then show "G (fetch_of IndexByName (Suc i + k) a (getIndexByName svc a))" by simp
  qed
  have "yields (bind_io ?first (\<lambda>d. bind_io (replicaIndexesList svc (Suc i) rest)
            (\<lambda>more. return_io (d # more))))
     (\<lambda>r bs. stage n G (4 + i) (4 + i + length (ns # rest)) r bs
        \<and> (\<forall>ril. r = Inr ril \<longrightarrow> map length ril = map length (ns # rest)))"
  proof (rule stage_bind[OF first])
    fix d :: "index_summary list"
    assume d: "length d = length ns"
    show "yields (bind_io (replicaIndexesList svc (Suc i) rest) (\<lambda>more. return_io (d # more)))
      (\<lambda>r bs. stage n G (4 + i + 1) (4 + i + length (ns # rest)) r bs
        \<and> (\<forall>ril. r = Inr ril \<longrightarrow> map length ril = map length (ns # rest)))"
    proof (rule stage_bind[where mid = "4 + i + length (ns # rest)"
          and D = "\<lambda>more. map length more = map length rest"])
      show "yields (replicaIndexesList svc (Suc i) rest)
         (\<lambda>r bs. stage n G (4 + i + 1) (4 + i + length (ns # rest)) r bs
            \<and> (\<forall>v. r = Inr v \<longrightarrow> map length v = map length rest))"
      proof -
        have "4 + Suc i = 4 + i + 1" and "4 + Suc i + length rest = 4 + i + length (ns # rest)"
          by simp_all
        with rest show ?thesis by (simp only:)
      qed
    next
      fix more :: "index_summary list list"
      assume m: "map length more = map length rest"
      have "yields (return_io (d # more))
         (\<lambda>r bs. stage n G (4 + i + length (ns # rest)) (4 + i + length (ns # rest)) r bs
            \<and> (\<forall>u. r = Inr u \<longrightarrow> u = d # more))"
        by (rule return_stage)
      then show "yields (return_io (d # more))
         (\<lambda>r bs. stage n G (4 + i + length (ns # rest)) (4 + i + length (ns # rest)) r bs
            \<and> (\<forall>u. r = Inr u \<longrightarrow> map length u = map length (ns # rest)))"
        by (rule yields_weaken) (use d m in auto)
    qed simp_all
  qed simp_all
  then show ?case by simp
qed

lemma replicaIndexSettingsList_stage:
  "(\<forall>k<length ril. ril ! k \<noteq> [] \<longrightarrow>
       (\<forall>a. G (fetch_of ReplicaSettings (i + k) a (getIndexSettings svc a)))) \<Longrightarrow>
   yields (replicaIndexSettingsList svc i ril)
     (\<lambda>r bs. stage n G (4 + n + i) (4 + n + i + length ril) r bs
        \<and> (\<forall>rsl. r = Inr rsl \<longrightarrow> map length rsl = map length ril))"
proof (induction ril arbitrary: i)
  case Nil
  show ?case by (simp add: yields_return stage_Nil)
next
  case (Cons ds rest)
  let ?first = "if length ds > 0
      then fetch_each ReplicaSettings (getIndexSettings svc) (map (Pair i) (map index_id ds))
      else return_io []"
  have first: "yields ?first (\<lambda>r bs. stage n G (4 + n + i) (4 + n + i + 1) r bs
        \<and> (\<forall>s. r = Inr s \<longrightarrow> length s = length ds))"
  proof (cases "ds = []")
    case True
    then show ?thesis by (simp add: yields_return stage_Nil)
  next
    case False
    have g: "\<And>a. G (fetch_of ReplicaSettings i a (getIndexSettings svc a))"
      using Cons.prems[rule_format, of 0] False by simp
    have "yields (fetch_each ReplicaSettings (getIndexSettings svc) (map (Pair i) (map index_id ds)))
       (\<lambda>r bs. stage n G (4 + n + i) (4 + n + i + 1) r bs
        \<and> (\<forall>vs. r = Inr vs \<longrightarrow>
              map (\<lambda>a. snd (getIndexSettings svc a)) (map snd (map (Pair i) (map index_id ds)))
                = map Inr vs))"
      by (rule fetch_each_stage[where \<rho> = "4 + n + i"]) (auto simp: rank_fetch_of g)
    then have "yields (fetch_each ReplicaSettings (getIndexSettings svc) (map (Pair i) (map index_id ds)))
       (\<lambda>r bs. stage n G (4 + n + i) (4 + n + i + 1) r bs
        \<and> (\<forall>s. r = Inr s \<longrightarrow> length s = length ds))"
    proof (rule yields_weaken)
      fix r bs
      assume a: "stage n G (4 + n + i) (4 + n + i + 1) r bs \<and> (\<forall>vs. r = Inr vs \<longrightarrow>
              map (\<lambda>a. snd (getIndexSettings svc a)) (map snd (map (Pair i) (map index_id ds)))
                = map Inr vs)"
      show "stage n G (4 + n + i) (4 + n + i + 1) r bs \<and> (\<forall>s. r = Inr s \<longrightarrow> length s = length ds)"
      proof (intro conjI allI impI)
        show "stage n G (4 + n + i) (4 + n + i + 1) r bs" using a by simp
      next
        fix s
        assume "r = Inr s"
        with a have "map (\<lambda>a. snd (getIndexSettings svc a))
            (map snd (map (Pair i) (map index_id ds))) = map Inr s"
          by simp
        then have "length (map snd (map (Pair i) (map index_id ds))) = length s"
          by (rule map_eq_imp_length_eq)
        then show "length s = length ds" by simp
      qed
    qed
    with False show ?thesis by simp
  qed
  have rest: "yields (replicaIndexSettingsList svc (Suc i) rest)
     (\<lambda>r bs. stage n G (4 + n + Suc i) (4 + n + Suc i + length rest) r bs
        \<and> (\<forall>rsl. r = Inr rsl \<longrightarrow> map length rsl = map length rest))"
  proof (rule Cons.IH, intro allI impI)
    fix k a
    assume "k < length rest" "rest ! k \<noteq> []"
    then have "Suc k < length (ds # rest)" "(ds # rest) ! Suc k \<noteq> []" by simp_all
    then have "G (fetch_of ReplicaSettings (i + Suc k) a (getIndexSettings svc a))"
      using Cons.prems[rule_format, of "Suc k" a] by blast
    then show "G (fetch_of ReplicaSettings (Suc i + k) a (getIndexSettings svc a))" by simp
  qed
  have "yields (bind_io ?first (\<lambda>s. bind_io (replicaIndexSettingsList svc (Suc i) rest)
            (\<lambda>more. return_io (s # more))))
     (\<lambda>r bs. stage n G (4 + n + i) (4 + n + i + length (ds # rest)) r bs
        \<and> (\<forall>rsl. r = Inr rsl \<longrightarrow> map length rsl = map length (ds # rest)))"
  proof (rule stage_bind[OF first])
    fix s :: "index_settings list"
    assume s: "length s = length ds"
    show "yields (bind_io (replicaIndexSettingsList svc (Suc i) rest) (\<lambda>more. return_io (s # more)))
      (\<lambda>r bs. stage n G (4 + n + i + 1) (4 + n + i + length (ds # rest)) r bs
        \<and> (\<forall>rsl. r = Inr rsl \<longrightarrow> map length rsl = map length (ds # rest)))"
    proof (rule stage_bind[where mid = "4 + n + i + length (ds # rest)"
          and D = "\<lambda>more. map length more = map length rest"])
      show "yields (replicaIndexSettingsList svc (Suc i) rest)
         (\<lambda>r bs. stage n G (4 + n + i + 1) (4 + n + i + length (ds # rest)) r bs
            \<and> (\<forall>v. r = Inr v \<longrightarrow> map length v = map length rest))"
      proof -
        have "4 + n + Suc i = 4 + n + i + 1"
          and "4 + n + Suc i + length rest = 4 + n + i + length (ds # rest)"
          by simp_all
        with rest show ?thesis by (simp only:)
      qed
    next
      fix more :: "index_settings list list"
      assume m: "map length more = map length rest"
      have "yields (return_io (s # more))
         (\<lambda>r bs. stage n G (4 + n + i + length (ds # rest)) (4 + n + i + length (ds # rest)) r bs
            \<and> (\<forall>u. r = Inr u \<longrightarrow> u = s # more))"
        by (rule return_stage)
      then show "yields (return_io (s # more))
         (\<lambda>r bs. stage n G (4 + n + i + length (ds # rest)) (4 + n + i + length (ds # rest)) r bs
            \<and> (\<forall>u. r = Inr u \<longrightarrow> map length u = map length (ds # rest)))"
        by (rule yields_weaken) (use s m in auto)
    qed simp_all
  qed simp_all
  then show ?case by simp
qed

lemma stage_only: "yields m (\<lambda>r bs. stage n G lo hi r bs \<and> Q r) \<Longrightarrow> yields m (stage n G lo hi)"
  by (erule yields_weaken) simp

lemma stage_bind1:
  assumes m: "yields m (stage n G lo mid)"
    and f: "\<And>v. yields (f v) (stage n G mid hi)"
    and "lo \<le> mid" and "mid \<le> hi"
  shows "yields (bind_io m f) (stage n G lo hi)"
proof (rule stage_bind0[where D = "\<lambda>v. True", OF _ _ assms(3,4)])
  show "yields m (\<lambda>r bs. stage n G lo mid r bs \<and> (\<forall>v. r = Inr v \<longrightarrow> True))"
    using m by (rule yields_weaken) simp
next
  fix v
  show "yields (f v) (stage n G mid hi)" by (rule f)
qed

lemma replicas_declared_fetch_of:
  "k \<noteq> IndexByName \<Longrightarrow> k \<noteq> ReplicaSettings \<Longrightarrow> replicas_declared svc ixs (fetch_of k i a p)"
  by (simp add: replicas_declared_def replica_related_def fetch_of_def)

lemma settingsList_stage:
  "yields (settingsList svc ixs)
     (\<lambda>r bs. stage (length ixs) (replicas_declared svc ixs) 0 1 r bs
        \<and> (\<forall>S. r = Inr S \<longrightarrow>
              map (\<lambda>item. snd (getIndexSettings svc (index_id item))) ixs = map Inr S))"
proof -
  have "yields (settingsList svc ixs)
     (\<lambda>r bs. stage (length ixs) (replicas_declared svc ixs) 0 1 r bs
        \<and> (\<forall>vs. r = Inr vs \<longrightarrow>
              map (\<lambda>a. snd (getIndexSettings svc a))
                (map snd (zip [0..<length ixs] (map index_id ixs))) = map Inr vs))"
    unfolding settingsList_def
    by (rule fetch_each_stage[where \<rho> = 0])
      (simp_all add: rank_fetch_of replicas_declared_fetch_of)
  then show ?thesis by (simp add: comp_def)
qed

lemma assignedContentTypesList_stage:
  "yields (assignedContentTypesList svc ixs) (stage (length ixs) (replicas_declared svc ixs) 1 2)"
  unfolding assignedContentTypesList_def
  by (rule stage_only, rule fetch_each_stage[where \<rho> = 1])
    (simp_all add: rank_fetch_of replicas_declared_fetch_of)

lemma activeWebhooks_stage:
  "yields (contentWebhooksList ActiveWebhook svc refs) (stage n (replicas_declared svc ixs) 2 3)"
  by (rule stage_only, rule contentWebhooksList_stage[where \<rho> = 2])
    (simp_all add: rank_fetch_of replicas_declared_fetch_of)

lemma archivedWebhooks_stage:
  "yields (contentWebhooksList ArchivedWebhook svc refs) (stage n (replicas_declared svc ixs) 3 4)"
  by (rule stage_only, rule contentWebhooksList_stage[where \<rho> = 3])
    (simp_all add: rank_fetch_of replicas_declared_fetch_of)

lemma lift_stage0: "yields (lift_io r) (stage n G lo lo)"
  by (rule yields_lift) (rule stage_Nil)

lemma return_stage0: "yields (return_io v) (stage n G lo lo)"
  by (rule yields_return) (rule stage_Nil)

lemma final_stage:
  "yields (finalIndexesListDetails svc ixs)
     (stage (length ixs) (replicas_declared svc ixs) 0 (4 + 2 * length ixs))"
proof (cases "ixs = []")
  case True
  then show ?thesis
    by (simp add: finalIndexesListDetails_def yields_return stage_Nil)
next
  case False
  let ?n = "length ixs"
  let ?G = "replicas_declared svc ixs"
  have tail: "yields
      (bind_io (replicaIndexesList svc 0 (map replicas_of S)) (\<lambda>ril.
       bind_io (replicaIndexSettingsList svc 0 ril) (\<lambda>rsl. return_io (mk ril rsl))))
      (stage ?n ?G 4 (4 + 2 * ?n))"
    if S: "map (\<lambda>item. snd (getIndexSettings svc (index_id item))) ixs = map Inr S"
    for S :: "index_settings list" and mk :: "index_summary list list \<Rightarrow> index_settings list list \<Rightarrow> index_entry list"
  proof -
    have len: "length S = ?n" using map_eq_imp_length_eq[OF S] by simp
    have decl: "?G (fetch_of k j a p)"
      if "j < ?n" and "replicas_of (S ! j) \<noteq> []" for k j a and p :: "'x promise"
    proof -
      from map_eq_nth[OF S that(1)]
      have "snd (getIndexSettings svc (index_id (ixs ! j))) = Inr (S ! j)" by simp
      with that show ?thesis
        by (auto simp: replicas_declared_def fetch_of_def)
    qed
    have loop1: "yields (replicaIndexesList svc 0 (map replicas_of S))
       (\<lambda>r bs. stage ?n ?G (4 + 0) (4 + 0 + length (map replicas_of S)) r bs
          \<and> (\<forall>ril. r = Inr ril \<longrightarrow> map length ril = map length (map replicas_of S)))"
    proof (rule replicaIndexesList_stage, intro allI impI)
      fix k a
      assume k: "k < length (map replicas_of S)" "map replicas_of S ! k \<noteq> []"
      then have "k < ?n" and "replicas_of (S ! k) \<noteq> []" by (simp_all add: len)
      then have "?G (fetch_of IndexByName k a (getIndexByName svc a))" by (rule decl)
      then show "?G (fetch_of IndexByName (0 + k) a (getIndexByName svc a))" by simp
    qed
    show ?thesis
    proof (rule stage_bind0[where mid = "4 + ?n"
          and D = "\<lambda>ril. map length ril = map length (map replicas_of S)"])
      show "yields (replicaIndexesList svc 0 (map replicas_of S))
         (\<lambda>r bs. stage ?n ?G 4 (4 + ?n) r bs
            \<and> (\<forall>v. r = Inr v \<longrightarrow> map length v = map length (map replicas_of S)))"
        using loop1 by (simp add: len)
    next
      fix ril :: "index_summary list list"
      assume r: "map length ril = map length (map replicas_of S)"
      then have lr: "length ril = ?n"
        using map_eq_imp_length_eq[OF r] by (simp add: len)
      have nonempty: "replicas_of (S ! k) \<noteq> []" if "k < length ril" "ril ! k \<noteq> []" for k
      proof -
        from r that(1) lr len have "length (ril ! k) = length (replicas_of (S ! k))"
          using map_eq_nth(1)[OF r that(1)] by simp
        with that(2) show ?thesis by auto
      qed
      have loop2: "yields (replicaIndexSettingsList svc 0 ril)
         (\<lambda>r bs. stage ?n ?G (4 + ?n + 0) (4 + ?n + 0 + length ril) r bs
            \<and> (\<forall>rsl. r = Inr rsl \<longrightarrow> map length rsl = map length ril))"
      proof (rule replicaIndexSettingsList_stage, intro allI impI)
        fix k a
        assume k: "k < length ril" "ril ! k \<noteq> []"
        then have ne: "replicas_of (S ! k) \<noteq> []" by (rule nonempty)
        from k(1) lr have "k < ?n" by simp
        then have "?G (fetch_of ReplicaSettings k a (getIndexSettings svc a))"
          using ne by (rule decl)
        then show "?G (fetch_of ReplicaSettings (0 + k) a (getIndexSettings svc a))"
          by simp
      qed
      show "yields (bind_io (replicaIndexSettingsList svc 0 ril) (\<lambda>rsl. return_io (mk ril rsl)))
         (stage ?n ?G (4 + ?n) (4 + 2 * ?n))"
      proof (rule stage_bind1[where mid = "4 + 2 * ?n"])
        show "yields (replicaIndexSettingsList svc 0 ril) (stage ?n ?G (4 + ?n) (4 + 2 * ?n))"
        proof -
          have "4 + ?n + 0 = 4 + ?n" and "4 + ?n + 0 + length ril = 4 + 2 * ?n"
            by (simp_all add: lr)
          with stage_only[OF loop2] show ?thesis by (simp only:)
        qed
      next
        fix rsl
        show "yields (return_io (mk ril rsl)) (stage ?n ?G (4 + 2 * ?n) (4 + 2 * ?n))"
          by (rule return_stage0)
      qed simp_all
    qed simp_all
  qed
  have "yields
     (bind_io (settingsList svc ixs) (\<lambda>settingsL.
        bind_io (assignedContentTypesList svc ixs) (\<lambda>assignedL.
        bind_io (lift_io (sequence (map contentWebhooks assignedL))) (\<lambda>refs.
        bind_io (contentWebhooksList ActiveWebhook svc (map fst refs)) (\<lambda>activeL.
        bind_io (contentWebhooksList ArchivedWebhook svc (map snd refs)) (\<lambda>archivedL.
        bind_io (lift_io (sequence (map contentWebhooksPayload activeL))) (\<lambda>activePayload.
        bind_io (lift_io (sequence (map contentWebhooksPayload archivedL))) (\<lambda>archivedPayload.
        bind_io (replicaIndexesList svc 0 (map replicas_of settingsL)) (\<lambda>replicaIndexesL.
        bind_io (replicaIndexSettingsList svc 0 replicaIndexesL) (\<lambda>replicaIndexSettingsL.
        return_io
          (map (indexEntry ixs settingsL assignedL activePayload archivedPayload
                  (map replicas_of settingsL) replicaIndexesL replicaIndexSettingsL)
             (filter (\<lambda>i. \<not> truthy (parentId (ixs ! i)))
                [0..<length ixs]))))))))))))
     (stage ?n ?G 0 (4 + 2 * ?n))"
  proof (rule stage_bind0[OF settingsList_stage])
    fix S
    assume S: "map (\<lambda>item. snd (getIndexSettings svc (index_id item))) ixs = map Inr S"
    show "yields
        (bind_io (assignedContentTypesList svc ixs) (\<lambda>assignedL.
        bind_io (lift_io (sequence (map contentWebhooks assignedL))) (\<lambda>refs.
        bind_io (contentWebhooksList ActiveWebhook svc (map fst refs)) (\<lambda>activeL.
        bind_io (contentWebhooksList ArchivedWebhook svc (map snd refs)) (\<lambda>archivedL.
        bind_io (lift_io (sequence (map contentWebhooksPayload activeL))) (\<lambda>activePayload.
        bind_io (lift_io (sequence (map contentWebhooksPayload archivedL))) (\<lambda>archivedPayload.
        bind_io (replicaIndexesList svc 0 (map replicas_of S)) (\<lambda>replicaIndexesL.
        bind_io (replicaIndexSettingsList svc 0 replicaIndexesL) (\<lambda>replicaIndexSettingsL.
        return_io
          (map (indexEntry ixs S assignedL activePayload archivedPayload
                  (map replicas_of S) replicaIndexesL replicaIndexSettingsL)
             (filter (\<lambda>i. \<not> truthy (parentId (ixs ! i)))
                [0..<length ixs])))))))))))
        (stage ?n ?G 1 (4 + 2 * ?n))"
      apply (rule stage_bind1[OF assignedContentTypesList_stage])
        apply (rule stage_bind1[OF lift_stage0])
          apply (rule stage_bind1[OF activeWebhooks_stage])
            apply (rule stage_bind1[OF archivedWebhooks_stage])
              apply (rule stage_bind1[OF lift_stage0])
                apply (rule stage_bind1[OF lift_stage0])
                  apply (rule tail[OF S])
                 apply simp_all
      done
  qed simp_all
  with False show ?thesis by (simp add: finalIndexesListDetails_def)
qed

lemma issued_append: "issued w (w\<lparr>fetches := fetches w @ bs\<rparr>) = bs"
  by (simp add: issued_def)

lemma final_run:
  obtains bs where
    "snd (finalIndexesListDetails svc ixs w) = w\<lparr>fetches := fetches w @ bs\<rparr>"
    "issued w (snd (finalIndexesListDetails svc ixs w)) = bs"
    "stage (length ixs) (replicas_declared svc ixs) 0 (4 + 2 * length ixs)
       (fst (finalIndexesListDetails svc ixs w)) bs"
proof -
  from final_stage[of svc ixs] obtain bs where
    1: "snd (finalIndexesListDetails svc ixs w) = w\<lparr>fetches := fetches w @ bs\<rparr>"
    and 2: "stage (length ixs) (replicas_declared svc ixs) 0 (4 + 2 * length ixs)
       (fst (finalIndexesListDetails svc ixs w)) bs"
    by (rule yieldsD)
  from 1 have "issued w (snd (finalIndexesListDetails svc ixs w)) = bs"
    by (simp add: issued_append)
  from that[OF 1 this 2] show ?thesis .
qed

lemma processIndexes_world:
  "fetches (snd (processIndexes svc d h out w)) = fetches w"
  by (simp add: processIndexes_def nothingExportedExit_def writeJsonToFile_def)

lemma handler_run:
  obtains (early) e where "handler svc argv w = (Inl e, w)"
  | (failed) ixs e where
      "fst (finalIndexesListDetails svc ixs w) = Inl e"
      "handler svc argv w = (Inl e, snd (finalIndexesListDetails svc ixs w))"
  | (processed) ixs h out where
      "fst (finalIndexesListDetails svc ixs w) = Inr out"
      "handler svc argv w =
         processIndexes svc (dir argv) h out (snd (finalIndexesListDetails svc ixs w))"
proof (cases "snd (hubs_get svc (hubId argv))")
  case (Inl e)
  then have "handler svc argv w = (Inl e, w)"
    by (simp add: handler_def bind_io_def await_def)
  then show ?thesis by (rule early)
next
  case h: (Inr h)
  show ?thesis
  proof (cases "snd (fetchClient_init svc)")
    case (Inl e)
    with h have "handler svc argv w = (Inl e, w)"
      by (simp add: handler_def bind_io_def await_def)
    then show ?thesis by (rule early)
  next
    case u: (Inr u)
    show ?thesis
    proof (cases "snd (getIdexesDetailsList svc)")
      case (Inl e)
      with h u have "handler svc argv w = (Inl e, w)"
        by (simp add: handler_def bind_io_def await_def)
      then show ?thesis by (rule early)
    next
      case l: (Inr ixs)
      have hd: "handler svc argv w =
          bind_io (finalIndexesListDetails svc ixs) (processIndexes svc (dir argv) h) w"
        using h u l by (simp add: handler_def bind_io_def await_def)
      show ?thesis
      proof (cases "fst (finalIndexesListDetails svc ixs w)")
        case (Inl e)
        then have "handler svc argv w = (Inl e, snd (finalIndexesListDetails svc ixs w))"
          by (cases "finalIndexesListDetails svc ixs w") (simp add: hd bind_io_def)
        with Inl show ?thesis by (rule failed)
      next
        case (Inr out)
        then have "handler svc argv w =
            processIndexes svc (dir argv) h out (snd (finalIndexesListDetails svc ixs w))"
          by (cases "finalIndexesListDetails svc ixs w") (simp add: hd bind_io_def)
        with Inr show ?thesis by (rule processed)
      qed
    qed
  qed
qed

lemma issued_same_fetches: "fetches w'' = fetches w' \<Longrightarrow> issued w w'' = issued w w'"
  by (simp add: issued_def)

lemma stage_no_rejection:
  "stage n G lo hi r bs \<Longrightarrow> \<forall>b\<in>set bs. no_rejection b \<Longrightarrow> stage n G lo hi r' bs"
  unfolding stage_def fail_fast_def by blast

lemma stage_Inr_no_rejection:
  "stage n G lo hi (Inr v) bs \<Longrightarrow> \<forall>b\<in>set bs. no_rejection b"
  unfolding stage_def fail_fast_def by blast

lemma replicas_declared_owner:
  "\<forall>f. replicas_declared svc ixs f \<longrightarrow> replica_related f \<longrightarrow> owner f < length ixs"
  unfolding replicas_declared_def by blast

lemma handler_stage:
  obtains n G hi where
    "stage n G 0 hi (fst (handler svc argv w)) (issued w (snd (handler svc argv w)))"
    "\<forall>f. G f \<longrightarrow> replica_related f \<longrightarrow> owner f < n"
proof (cases rule: handler_run[of svc argv w])
  case (early e)
  then have i: "issued w (snd (handler svc argv w)) = []"
    by (simp add: issued_def)
  show ?thesis
  proof (rule that[of 0 "\<lambda>f. False" 0])
    show "stage 0 (\<lambda>f. False) 0 0 (fst (handler svc argv w)) (issued w (snd (handler svc argv w)))"
      unfolding i by (rule stage_Nil)
    show "\<forall>f. False \<longrightarrow> replica_related f \<longrightarrow> owner f < 0" by blast
  qed
next
  case (failed ixs e)
  obtain bs where w1: "snd (finalIndexesListDetails svc ixs w) = w\<lparr>fetches := fetches w @ bs\<rparr>"
    and b: "issued w (snd (finalIndexesListDetails svc ixs w)) = bs"
    and s: "stage (length ixs) (replicas_declared svc ixs) 0 (4 + 2 * length ixs)
       (fst (finalIndexesListDetails svc ixs w)) bs"
    by (rule final_run)
  from s have "stage (length ixs) (replicas_declared svc ixs) 0 (4 + 2 * length ixs)
       (Inl e :: error + index_entry list) bs"
    unfolding failed(1) .
  then have s': "stage (length ixs) (replicas_declared svc ixs) 0 (4 + 2 * length ixs)
       (Inl e :: error + outcome) bs"
    by (rule stage_Inl) (rule le_refl)
  have r: "fst (handler svc argv w) = Inl e" and i: "issued w (snd (handler svc argv w)) = bs"
    unfolding failed(2) using b by simp_all
  show ?thesis
  proof (rule that)
    show "stage (length ixs) (replicas_declared svc ixs) 0 (4 + 2 * length ixs)
      (fst (handler svc argv w)) (issued w (snd (handler svc argv w)))"
      unfolding r i by (rule s')
    show "\<forall>f. replicas_declared svc ixs f \<longrightarrow> replica_related f \<longrightarrow> owner f < length ixs"
      by (rule replicas_declared_owner)
  qed
next
  case (processed ixs h out)
  obtain bs where w1: "snd (finalIndexesListDetails svc ixs w) = w\<lparr>fetches := fetches w @ bs\<rparr>"
    and b: "issued w (snd (finalIndexesListDetails svc ixs w)) = bs"
    and s: "stage (length ixs) (replicas_declared svc ixs) 0 (4 + 2 * length ixs)
       (fst (finalIndexesListDetails svc ixs w)) bs"
    by (rule final_run)
  from s have s1: "stage (length ixs) (replicas_declared svc ixs) 0 (4 + 2 * length ixs)
       (Inr out :: error + index_entry list) bs"
    unfolding processed(1) .
  then have all: "\<forall>b\<in>set bs. no_rejection b" by (rule stage_Inr_no_rejection)
  have "fetches (snd (handler svc argv w)) = fetches (snd (finalIndexesListDetails svc ixs w))"
    unfolding processed(2) by (rule processIndexes_world)
  then have "issued w (snd (handler svc argv w)) = issued w (snd (finalIndexesListDetails svc ixs w))"
    by (rule issued_same_fetches)
  then have i: "issued w (snd (handler svc argv w)) = bs" unfolding b .
  show ?thesis
  proof (rule that)
    show "stage (length ixs) (replicas_declared svc ixs) 0 (4 + 2 * length ixs)
      (fst (handler svc argv w)) (issued w (snd (handler svc argv w)))"
      unfolding i using s1 all by (rule stage_no_rejection)
    show "\<forall>f. replicas_declared svc ixs f \<longrightarrow> replica_related f \<longrightarrow> owner f < length ixs"
      by (rule replicas_declared_owner)
  qed
qed

lemma handler_files:
  "fst (handler svc argv w) = Inl e \<Longrightarrow> files (snd (handler svc argv w)) = files w"
proof (cases rule: handler_run[of svc argv w])
  case (early e)
  then show ?thesis by simp
next
  case (failed ixs e')
  obtain bs where "snd (finalIndexesListDetails svc ixs w) = w\<lparr>fetches := fetches w @ bs\<rparr>"
    by (rule final_run)
  with failed(2) show ?thesis by simp
next
  case (processed ixs h out)
  assume "fst (handler svc argv w) = Inl e"
  with processed(2) show ?thesis
    by (simp add: processIndexes_def nothingExportedExit_def split: if_splits)
qed























lemma rejecting_log:
  "issued world0 (snd (handler rejecting_services acme_argv world0)) =
     [[\<lparr>kind = IndexSettings, owner = 0, request = ''i1'', settled = 3, rejection = None\<rparr>,
       \<lparr>kind = IndexSettings, owner = 1, request = ''i2'', settled = 1, rejection = None\<rparr>],
      [\<lparr>kind = AssignedContentTypes, owner = 0, request = ''i1'', settled = 5,
         rejection = Some (Rejected ''late'')\<rparr>,
       \<lparr>kind = AssignedContentTypes, owner = 1, request = ''i2'', settled = 2,
         rejection = Some (Rejected ''early'')\<rparr>]]"
  by code_simp

lemma trio_full_log:
  "issued world0 (snd (handler trio_services acme_argv world0)) =
     [[\<lparr>kind = IndexSettings, owner = 0, request = ''a'', settled = 1, rejection = None\<rparr>,
       \<lparr>kind = IndexSettings, owner = 1, request = ''b'', settled = 1, rejection = None\<rparr>,
       \<lparr>kind = IndexSettings, owner = 2, request = ''c'', settled = 1, rejection = None\<rparr>],
      [\<lparr>kind = AssignedContentTypes, owner = 0, request = ''a'', settled = 1, rejection = None\<rparr>,
       \<lparr>kind = AssignedContentTypes, owner = 1, request = ''b'', settled = 1, rejection = None\<rparr>,
       \<lparr>kind = AssignedContentTypes, owner = 2, request = ''c'', settled = 1, rejection = None\<rparr>],
      [], [],
      [\<lparr>kind = IndexByName, owner = 0, request = ''ra'', settled = 1, rejection = None\<rparr>],
      [\<lparr>kind = IndexByName, owner = 1, request = ''rb'', settled = 1, rejection = None\<rparr>],
      [\<lparr>kind = ReplicaSettings, owner = 0, request = ''ra-id'', settled = 1, rejection = None\<rparr>],
      [\<lparr>kind = ReplicaSettings, owner = 1, request = ''rb-id'', settled = 1, rejection = None\<rparr>]]"
  by code_simp

text \<open>
  C3. If any request of any batch of a run of \<^verbatim>\<open>handler\<close> rejects (settings,
  assignments, webhooks, by-name lookups and replica settings are all the batches there
  are), the run rejects, with the rejection that settles first in the last batch issued,
  and the files are what they were.
\<close>

theorem fetch_rejection_aborts:
  assumes "b \<in> set (issued w (snd (handler svc argv w)))" and "f \<in> set b"
    and "rejection f \<noteq> None"
  shows "(\<exists>e. fst (handler svc argv w) = Inl e
            \<and> first_rejection (last (issued w (snd (handler svc argv w)))) = Some e)
       \<and> files (snd (handler svc argv w)) = files w"
proof -
  obtain n G hi where
    "stage n G 0 hi (fst (handler svc argv w)) (issued w (snd (handler svc argv w)))"
    and "\<forall>f. G f \<longrightarrow> replica_related f \<longrightarrow> owner f < n"
    by (rule handler_stage)
  then have ff: "fail_fast (fst (handler svc argv w)) (issued w (snd (handler svc argv w)))"
    by (simp add: stage_def)
  from assms have "\<not> (\<forall>b\<in>set (issued w (snd (handler svc argv w))). no_rejection b)"
    by (auto simp: no_rejection_def)
  with ff obtain e where e: "fst (handler svc argv w) = Inl e"
    and "first_rejection (last (issued w (snd (handler svc argv w)))) = Some e"
    unfolding fail_fast_def by blast
  moreover from e have "files (snd (handler svc argv w)) = files w" by (rule handler_files)
  ultimately show ?thesis by blast
qed

text \<open>
  Both assignment fetches reject; the one for \<^verbatim>\<open>i2\<close> settles first and is the error of
  the run.
\<close>

theorem fetch_rejection_aborts_witness:
  "[\<lparr>kind = AssignedContentTypes, owner = 0, request = ''i1'', settled = 5,
         rejection = Some (Rejected ''late'')\<rparr>,
       \<lparr>kind = AssignedContentTypes, owner = 1, request = ''i2'', settled = 2,
         rejection = Some (Rejected ''early'')\<rparr>]
      \<in> set (issued world0 (snd (handler rejecting_services acme_argv world0)))
   \<and> fst (handler rejecting_services acme_argv world0) = Inl (Rejected ''early'')
   \<and> first_rejection (last (issued world0 (snd (handler rejecting_services acme_argv world0))))
       = Some (Rejected ''early'')
   \<and> files (snd (handler rejecting_services acme_argv world0)) = files world0"
proof -
  let ?f = "\<lparr>kind = AssignedContentTypes, owner = 0, request = ''i1'', settled = 5,
         rejection = Some (Rejected ''late'')\<rparr>"
  let ?b = "[?f, \<lparr>kind = AssignedContentTypes, owner = 1, request = ''i2'', settled = 2,
         rejection = Some (Rejected ''early'')\<rparr>]"
  have h1: "?b \<in> set (issued world0 (snd (handler rejecting_services acme_argv world0)))"
    by (simp add: rejecting_log)
  have h2: "?f \<in> set ?b" by simp
  have h3: "rejection ?f \<noteq> None" by simp
  have r: "fst (handler rejecting_services acme_argv world0) = Inl (Rejected ''early'')"
    by code_simp
  show ?thesis
    using fetch_rejection_aborts [OF h1 h2 h3] h1 r by auto
qed

text \<open>
  C7, as the code has it. The replicas are expanded by two loops, one after the other.
  Within each loop the indexes are taken one at a time in input order: the by-name lookups
  of an index are in an earlier batch than those of any later index, and so are the replica
  settings fetches. Every by-name lookup, of whatever index, is in an earlier batch than
  every replica settings fetch. (A batch is awaited before the next one is issued.)
\<close>

theorem replica_stage_order:
  assumes "p < length (issued w (snd (handler svc argv w)))"
    and "q < length (issued w (snd (handler svc argv w)))"
    and "f \<in> set (issued w (snd (handler svc argv w)) ! p)"
    and "g \<in> set (issued w (snd (handler svc argv w)) ! q)"
    and "(kind f = IndexByName \<and> kind g = IndexByName \<and> owner f < owner g)
       \<or> (kind f = ReplicaSettings \<and> kind g = ReplicaSettings \<and> owner f < owner g)
       \<or> (kind f = IndexByName \<and> kind g = ReplicaSettings)"
  shows "p < q"
proof -
  let ?bs = "issued w (snd (handler svc argv w))"
  obtain n G hi where s: "stage n G 0 hi (fst (handler svc argv w)) ?bs"
    and o: "\<forall>f. G f \<longrightarrow> replica_related f \<longrightarrow> owner f < n"
    by (rule handler_stage)
  let ?P = "\<lambda>b c. \<forall>f\<in>set b. \<forall>g\<in>set c. rank n f < rank n g"
  from s have sorted: "sorted_wrt ?P ?bs"
    and batch: "\<forall>b\<in>set ?bs. \<forall>f\<in>set b. G f \<and> (\<forall>g\<in>set b. rank n g = rank n f)"
    unfolding stage_def by blast+
  have bp: "?bs ! p \<in> set ?bs" and bq: "?bs ! q \<in> set ?bs"
    using assms(1,2) by simp_all
  from batch bp assms(3) have "G f" by blast
  with o have of_n: "replica_related f \<Longrightarrow> owner f < n" by blast
  have lt: "rank n f < rank n g"
    using assms(5) of_n by (auto simp: rank_def replica_related_def)
  show ?thesis
  proof (rule ccontr)
    assume "\<not> p < q"
    then consider "p = q" | "q < p" by linarith
    then show False
    proof cases
      case 1
      with batch bp assms(3,4) have "rank n g = rank n f" by blast
      with lt show False by simp
    next
      case 2
      from sorted 2 assms(1) have "?P (?bs ! q) (?bs ! p)"
        by (rule sorted_wrt_nth_less)
      with assms(3,4) have "rank n g < rank n f" by blast
      with lt show False by simp
    qed
  qed
qed

theorem replica_stage_order_witness:
  "(4::nat) < length (issued world0 (snd (handler trio_services acme_argv world0)))
   \<and> (5::nat) < length (issued world0 (snd (handler trio_services acme_argv world0)))
   \<and> \<lparr>kind = IndexByName, owner = 0, request = ''ra'', settled = 1, rejection = None\<rparr>
       \<in> set (issued world0 (snd (handler trio_services acme_argv world0)) ! 4)
   \<and> \<lparr>kind = IndexByName, owner = 1, request = ''rb'', settled = 1, rejection = None\<rparr>
       \<in> set (issued world0 (snd (handler trio_services acme_argv world0)) ! 5)
   \<and> (4::nat) < 5"
proof -
  let ?f = "\<lparr>kind = IndexByName, owner = 0, request = ''ra'', settled = 1, rejection = None\<rparr>"
  let ?g = "\<lparr>kind = IndexByName, owner = 1, request = ''rb'', settled = 1, rejection = None\<rparr>"
  have h1: "(4::nat) < length (issued world0 (snd (handler trio_services acme_argv world0)))"
    by (simp add: trio_full_log)
  have h2: "(5::nat) < length (issued world0 (snd (handler trio_services acme_argv world0)))"
    by (simp add: trio_full_log)
  have h3: "?f \<in> set (issued world0 (snd (handler trio_services acme_argv world0)) ! 4)"
    by (simp add: trio_full_log)
  have h4: "?g \<in> set (issued world0 (snd (handler trio_services acme_argv world0)) ! 5)"
    by (simp add: trio_full_log)
  have h5: "(kind ?f = IndexByName \<and> kind ?g = IndexByName \<and> owner ?f < owner ?g)
       \<or> (kind ?f = ReplicaSettings \<and> kind ?g = ReplicaSettings \<and> owner ?f < owner ?g)
       \<or> (kind ?f = IndexByName \<and> kind ?g = ReplicaSettings)"
    by simp
  show ?thesis
    using replica_stage_order [OF h1 h2 h3 h4 h5] h1 h2 h3 h4 by blast
qed

text \<open>
  The claim as the spec words it fails: with two indexes that have a replica each, the
  by-name lookup for the second index (batch 5) is issued and awaited before the replica
  settings fetch for the first index (batch 6) begins.
\<close>

theorem replica_stage_order_counterexample:
  "call_sites (issued world0 (snd (handler trio_services acme_argv world0))) =
     [[(IndexSettings, 0), (IndexSettings, 1), (IndexSettings, 2)],
      [(AssignedContentTypes, 0), (AssignedContentTypes, 1), (AssignedContentTypes, 2)],
      [], [],
      [(IndexByName, 0)], [(IndexByName, 1)],
      [(ReplicaSettings, 0)], [(ReplicaSettings, 1)]]"
  by code_simp



end
